theory Spec2Isabelle
  imports Main "HOL-Library.AList"
begin

section \<open>JavaScript values used by the pipeline\<close>

subsection \<open>Numbers\<close>

text \<open>
  The pipeline of \<^verbatim>\<open>shaders.js\<close> never computes with the numbers it loads: it reads them
  from text (\<^verbatim>\<open>Number\<close>), classifies them (\<^verbatim>\<open>isNaN\<close>, \<^verbatim>\<open>isFinite\<close>) and prints
  them into a template literal. A Number is therefore modelled by what these three
  operations can observe:
  \<^item> \<open>NaN\<close>;
  \<^item> \<open>Infinity neg\<close>, the two infinities (\<open>neg\<close> is the sign bit);
  \<^item> \<open>Zero neg\<close>, the two zeros \<open>+0\<close> and \<open>-0\<close>, which are different values with
    different bit patterns;
  \<^item> \<open>Finite neg p d e\<close>, a finite non-zero number, written by the decimal digits that
    \<^verbatim>\<open>Number::toString\<close> prints for it: the digit string of \<open>10 * p + d\<close>, whose last
    digit \<open>d\<close> is not 0, scaled by \<open>10 ^ e\<close>. Every finite non-zero number has exactly
    one such form, so two values of the model are equal exactly when JavaScript cannot
    tell the numbers apart (\<^verbatim>\<open>Object.is\<close>).
\<close>

datatype nzdigit = D1 | D2 | D3 | D4 | D5 | D6 | D7 | D8 | D9

fun nzval :: "nzdigit \<Rightarrow> nat" where
  "nzval D1 = 1" | "nzval D2 = 2" | "nzval D3 = 3"
| "nzval D4 = 4" | "nzval D5 = 5" | "nzval D6 = 6"
| "nzval D7 = 7" | "nzval D8 = 8" | "nzval D9 = 9"

datatype jsnumber =
    NaN
  | Infinity bool
  | Zero bool
  | Finite bool nat nzdigit int

definition significand :: "nat \<Rightarrow> nzdigit \<Rightarrow> nat" where
  "significand p d = 10 * p + nzval d"

fun isNaN :: "jsnumber \<Rightarrow> bool" where
  "isNaN NaN = True"
| "isNaN _ = False"

fun isFinite :: "jsnumber \<Rightarrow> bool" where
  "isFinite NaN = False"
| "isFinite (Infinity _) = False"
| "isFinite _ = True"

subsection \<open>Number to string\<close>

definition digit_char :: "nat \<Rightarrow> char" where
  "digit_char d = char_of (48 + d)"

function dec :: "nat \<Rightarrow> string" where
  "dec n = (if n < 10 then [digit_char n] else dec (n div 10) @ [digit_char (n mod 10)])"
  by pat_completeness auto
termination
  by (relation "measure id") auto

declare dec.simps [simp del]

text \<open>
  \<^verbatim>\<open>Number::toString(x, 10)\<close> of ECMA-262 for a positive finite \<open>x\<close> whose digits are
  \<open>ds\<close> (\<open>k\<close> of them) and whose value is \<open>ds * 10 ^ e\<close>; \<open>n = e + k\<close> is the position of
  the decimal point. The branches are steps 7 to 11 of the algorithm, in its order.
\<close>

definition render :: "string \<Rightarrow> int \<Rightarrow> string" where
  "render ds e =
     (let k = int (length ds); n = e + k in
      if k \<le> n \<and> n \<le> 21 then ds @ replicate (nat (n - k)) CHR ''0''
      else if 0 < n \<and> n \<le> 21 then take (nat n) ds @ ''.'' @ drop (nat n) ds
      else if -6 < n \<and> n \<le> 0 then ''0.'' @ replicate (nat (- n)) CHR ''0'' @ ds
      else
        (let x = n - 1;
             ex = (if 0 \<le> x then ''+'' else ''-'') @ dec (nat \<bar>x\<bar>) in
         if k = 1 then ds @ ''e'' @ ex
         else take 1 ds @ ''.'' @ drop 1 ds @ ''e'' @ ex))"

fun NumberToString :: "jsnumber \<Rightarrow> string" where
  "NumberToString NaN = ''NaN''"
| "NumberToString (Zero neg) = ''0''"
| "NumberToString (Infinity neg) = (if neg then ''-Infinity'' else ''Infinity'')"
| "NumberToString (Finite neg p d e) =
     (if neg then ''-'' else '''') @ render (dec (significand p d)) e"

text \<open>
  An array read \<^verbatim>\<open>a[i]\<close> gives \<^verbatim>\<open>undefined\<close> past the end of the array; in a template
  literal \<^verbatim>\<open>undefined\<close> prints as the word itself.
\<close>

definition at_index :: "'a list \<Rightarrow> nat \<Rightarrow> 'a option" where
  "at_index a i = (if i < length a then Some (a ! i) else None)"

fun ToString :: "jsnumber option \<Rightarrow> string" where
  "ToString None = ''undefined''"
| "ToString (Some x) = NumberToString x"

section \<open>Color deduplication\<close>

text \<open>
  \<^verbatim>\<open>generateColorIndices\<close> keeps three local variables: the \<^verbatim>\<open>Map\<close> from color key to
  index, the array of indices and the counter. A \<^verbatim>\<open>Map\<close> iterates in insertion order, so
  it is an association list; \<open>AList.update\<close> appends a new key at the end, as
  \<^verbatim>\<open>Map.prototype.set\<close> does.
\<close>

record dedup_state =
  colorMap :: "(string \<times> nat) list"
  colorIndices :: "nat list"
  nextIndex :: nat

definition colorKey :: "jsnumber list \<Rightarrow> nat \<Rightarrow> string" where
  "colorKey colorsArray i =
     ToString (at_index colorsArray i) @ '','' @
     ToString (at_index colorsArray (i + 1)) @ '','' @
     ToString (at_index colorsArray (i + 2))"

text \<open>
  One iteration of the loop body on the key of the current triple. When the key is new,
  \<^verbatim>\<open>set\<close> stores the counter, the counter is incremented, and the \<^verbatim>\<open>get\<close> that follows
  returns the value just stored; otherwise \<^verbatim>\<open>get\<close> returns the stored index.
\<close>

definition dedup_step :: "string \<Rightarrow> dedup_state \<Rightarrow> dedup_state" where
  "dedup_step key st =
     (case map_of (colorMap st) key of
        None \<Rightarrow>
          \<lparr> colorMap = AList.update key (nextIndex st) (colorMap st),
            colorIndices = colorIndices st @ [nextIndex st],
            nextIndex = nextIndex st + 1 \<rparr>
      | Some v \<Rightarrow> st \<lparr> colorIndices := colorIndices st @ [v] \<rparr>)"

function dedup_loop :: "jsnumber list \<Rightarrow> nat \<Rightarrow> dedup_state \<Rightarrow> dedup_state" where
  "dedup_loop colorsArray i st =
     (if i < length colorsArray
      then dedup_loop colorsArray (i + 3) (dedup_step (colorKey colorsArray i) st)
      else st)"
  by pat_completeness auto
termination
  by (relation "measure (\<lambda>(a, i, st). length a - i)") auto

declare dedup_loop.simps [simp del]

definition dedup_init :: dedup_state where
  "dedup_init = \<lparr> colorMap = [], colorIndices = [], nextIndex = 0 \<rparr>"

definition dedup_run :: "jsnumber list \<Rightarrow> dedup_state" where
  "dedup_run colorsArray = dedup_loop colorsArray 0 dedup_init"

text \<open>
  The same loop as a relation between the state at the loop test for the index \<open>i\<close> and
  the state when the loop is left: the test fails and the state is final, or the body
  runs once and the loop goes on from \<open>i + 3\<close>.
\<close>

inductive dedup_exec :: "jsnumber list \<Rightarrow> nat \<Rightarrow> dedup_state \<Rightarrow> dedup_state \<Rightarrow> bool" where
  exit: "\<not> i < length colorsArray \<Longrightarrow> dedup_exec colorsArray i st st"
| iteration:
    "i < length colorsArray \<Longrightarrow>
     dedup_exec colorsArray (i + 3) (dedup_step (colorKey colorsArray i) st) st' \<Longrightarrow>
     dedup_exec colorsArray i st st'"

definition generateColorIndices :: "jsnumber list \<Rightarrow> nat list" where
  "generateColorIndices colorsArray = colorIndices (dedup_run colorsArray)"

text \<open>The palette the function builds, and its size (\<^verbatim>\<open>colorMap.size\<close> in the log line).\<close>

definition palette :: "jsnumber list \<Rightarrow> (string \<times> nat) list" where
  "palette colorsArray = colorMap (dedup_run colorsArray)"

definition paletteSize :: "jsnumber list \<Rightarrow> nat" where
  "paletteSize colorsArray = length (palette colorsArray)"

section \<open>Data Loader\<close>

subsection \<open>Strings of the input text\<close>

text \<open>
  A JavaScript string is a sequence of 16-bit code units; the byte-order mark the loader
  removes is the code unit \<open>0xFEFF\<close>, so the input text is a list of code units, not of
  8-bit characters. \<open>ustr\<close> writes an ASCII literal as code units.
\<close>

type_synonym jsstring = "nat list"

definition ustr :: "string \<Rightarrow> jsstring" where
  "ustr s = map of_char s"

definition LF :: nat where
  "LF = 0x0A"

text \<open>
  The code points that \<^verbatim>\<open>String.prototype.trim\<close> strips and that \<^verbatim>\<open>\s\<close> matches in a
  regular expression: WhiteSpace and LineTerminator of ECMA-262.
\<close>

definition isWhiteSpace :: "nat \<Rightarrow> bool" where
  "isWhiteSpace c \<longleftrightarrow>
     c \<in> {0x09, 0x0A, 0x0B, 0x0C, 0x0D, 0x20, 0xA0, 0x1680,
          0x2028, 0x2029, 0x202F, 0x205F, 0x3000, 0xFEFF}
     \<or> (0x2000 \<le> c \<and> c \<le> 0x200A)"

definition trim :: "jsstring \<Rightarrow> jsstring" where
  "trim s = rev (dropWhile isWhiteSpace (rev (dropWhile isWhiteSpace s)))"

text \<open>\<^verbatim>\<open>s.split(sep)\<close> for a one-character separator; \<open>cur\<close> is the piece being read.\<close>

fun split_acc :: "nat \<Rightarrow> jsstring \<Rightarrow> jsstring \<Rightarrow> jsstring list" where
  "split_acc sep cur [] = [cur]"
| "split_acc sep cur (c # cs) =
     (if c = sep then cur # split_acc sep [] cs else split_acc sep (cur @ [c]) cs)"

definition split :: "nat \<Rightarrow> jsstring \<Rightarrow> jsstring list" where
  "split sep s = split_acc sep [] s"

text \<open>
  \<^verbatim>\<open>s.split(/\s+/)\<close>: every maximal run of white space is one separator. The empty
  string gives one empty piece, and white space at either end gives an empty piece there.
\<close>

function split_ws_acc :: "jsstring \<Rightarrow> jsstring \<Rightarrow> jsstring list" where
  "split_ws_acc cur [] = [cur]"
| "split_ws_acc cur (c # cs) =
     (if isWhiteSpace c then cur # split_ws_acc [] (dropWhile isWhiteSpace cs)
      else split_ws_acc (cur @ [c]) cs)"
  by pat_completeness auto
termination
  by (relation "measure (\<lambda>(cur, s). length s)")
     (auto simp: le_imp_less_Suc length_dropWhile_le)

definition split_ws :: "jsstring \<Rightarrow> jsstring list" where
  "split_ws s = split_ws_acc [] s"

subsection \<open>String to number\<close>

text \<open>
  \<^verbatim>\<open>Number(s)\<close> on a string is StringToNumber of ECMA-262: white space is stripped, the
  empty string is \<open>+0\<close>, a StrNumericLiteral has its value, and anything else is \<open>NaN\<close>.
\<close>

definition isDigit :: "nat \<Rightarrow> bool" where
  "isDigit c \<longleftrightarrow> 48 \<le> c \<and> c \<le> 57"

definition digitValue :: "nat \<Rightarrow> nat" where
  "digitValue c =
     (if 48 \<le> c \<and> c \<le> 57 then c - 48
      else if 97 \<le> c \<and> c \<le> 102 then c - 87
      else if 65 \<le> c \<and> c \<le> 70 then c - 55
      else 16)"

definition digitsValue :: "nat \<Rightarrow> jsstring \<Rightarrow> nat" where
  "digitsValue radix s = foldl (\<lambda>acc c. radix * acc + digitValue c) 0 s"

fun nzdigit_of :: "nat \<Rightarrow> nzdigit" where
  "nzdigit_of n =
     (if n = 1 then D1 else if n = 2 then D2 else if n = 3 then D3
      else if n = 4 then D4 else if n = 5 then D5 else if n = 6 then D6
      else if n = 7 then D7 else if n = 8 then D8 else D9)"

text \<open>
  The number \<open>\<plusminus> n * 10 ^ e\<close> in the form of the model: trailing zeros of \<open>n\<close> move into
  the exponent until the last digit is not 0.
\<close>

function decimal :: "bool \<Rightarrow> nat \<Rightarrow> int \<Rightarrow> jsnumber" where
  "decimal neg n e =
     (if n = 0 then Zero neg
      else if n mod 10 = 0 then decimal neg (n div 10) (e + 1)
      else Finite neg (n div 10) (nzdigit_of (n mod 10)) e)"
  by pat_completeness auto
termination
  by (relation "measure (\<lambda>(neg, n, e). n)") auto

declare decimal.simps [simp del]

text \<open>
  Rounding to binary64 at the ends of the range: a literal of at least
  \<open>2 ^ 1024 - 2 ^ 970\<close> becomes an infinity, a literal of at most \<open>2 ^ -1075\<close> becomes a
  zero. Inside the range the literal keeps its decimal value: the rounding to the
  nearest binary64 number there, which merges literals that differ after the 17th
  significant digit, is not modelled.
\<close>

definition overflows :: "nat \<Rightarrow> int \<Rightarrow> bool" where
  "overflows n e \<longleftrightarrow>
     (if 0 \<le> e then 2 ^ 1024 - 2 ^ 970 \<le> n * 10 ^ nat e
      else (2 ^ 1024 - 2 ^ 970) * 10 ^ nat (- e) \<le> n)"

definition underflows :: "nat \<Rightarrow> int \<Rightarrow> bool" where
  "underflows n e \<longleftrightarrow> e < 0 \<and> n * 2 ^ 1075 \<le> 10 ^ nat (- e)"

definition literalValue :: "bool \<Rightarrow> nat \<Rightarrow> int \<Rightarrow> jsnumber" where
  "literalValue neg n e =
     (if overflows n e then Infinity neg
      else if underflows n e then Zero neg
      else decimal neg n e)"

text \<open>
  ExponentPart: \<^verbatim>\<open>e\<close> or \<^verbatim>\<open>E\<close>, an optional sign and at least one digit, up to the end
  of the string.
\<close>

definition exponentPart :: "jsstring \<Rightarrow> int option" where
  "exponentPart s =
     (case s of
        [] \<Rightarrow> Some 0
      | c # r \<Rightarrow>
          if c = of_char CHR ''e'' \<or> c = of_char CHR ''E'' then
            (let neg = (r \<noteq> [] \<and> hd r = of_char CHR ''-'');
                 ds = (if r \<noteq> [] \<and> (hd r = of_char CHR ''+'' \<or> hd r = of_char CHR ''-'')
                       then tl r else r)
             in if ds \<noteq> [] \<and> list_all isDigit ds
                then Some ((if neg then - 1 else 1) * int (digitsValue 10 ds))
                else None)
          else None)"

text \<open>StrUnsignedDecimalLiteral, with the sign already read.\<close>

definition unsignedDecimal :: "bool \<Rightarrow> jsstring \<Rightarrow> jsnumber" where
  "unsignedDecimal neg s =
     (if s = ustr ''Infinity'' then Infinity neg
      else
        (let ip = takeWhile isDigit s;
             r1 = dropWhile isDigit s;
             dot = (r1 \<noteq> [] \<and> hd r1 = of_char CHR ''.'');
             fp = (if dot then takeWhile isDigit (tl r1) else []);
             r2 = (if dot then dropWhile isDigit (tl r1) else r1)
         in if ip = [] \<and> fp = [] then NaN
            else
              (case exponentPart r2 of
                 None \<Rightarrow> NaN
               | Some x \<Rightarrow> literalValue neg (digitsValue 10 (ip @ fp)) (x - int (length fp)))))"

text \<open>NonDecimalIntegerLiteral: \<^verbatim>\<open>0b\<close>, \<^verbatim>\<open>0o\<close> or \<^verbatim>\<open>0x\<close> and digits of that radix; no sign.\<close>

definition nonDecimalRadix :: "jsstring \<Rightarrow> nat option" where
  "nonDecimalRadix s =
     (case s of
        z # p # d # ds \<Rightarrow>
          if z \<noteq> of_char CHR ''0'' then None
          else if p = of_char CHR ''b'' \<or> p = of_char CHR ''B'' then Some 2
          else if p = of_char CHR ''o'' \<or> p = of_char CHR ''O'' then Some 8
          else if p = of_char CHR ''x'' \<or> p = of_char CHR ''X'' then Some 16
          else None
      | _ \<Rightarrow> None)"

definition StringToNumber :: "jsstring \<Rightarrow> jsnumber" where
  "StringToNumber s =
     (let t = trim s in
      if t = [] then Zero False
      else
        (case nonDecimalRadix t of
           Some radix \<Rightarrow>
             if list_all (\<lambda>c. digitValue c < radix) (drop 2 t)
             then literalValue False (digitsValue radix (drop 2 t)) 0
             else NaN
         | None \<Rightarrow>
             if hd t = of_char CHR ''-'' then unsignedDecimal True (tl t)
             else if hd t = of_char CHR ''+'' then unsignedDecimal False (tl t)
             else unsignedDecimal False t))"

definition Number :: "jsstring \<Rightarrow> jsnumber" where
  "Number s = StringToNumber s"

subsection \<open>parseDataFile\<close>

text \<open>\<^verbatim>\<open>text.replace\<close> with the pattern of one leading byte-order mark (U+FEFF).\<close>

definition removeBOM :: "jsstring \<Rightarrow> jsstring" where
  "removeBOM text = (case text of [] \<Rightarrow> [] | c # cs \<Rightarrow> if c = 0xFEFF then cs else text)"

text \<open>The test \<^verbatim>\<open>isNaN(val) || !isFinite(val)\<close> of the logging and of the filter.\<close>

definition invalid :: "jsnumber \<Rightarrow> bool" where
  "invalid val \<longleftrightarrow> isNaN val \<or> \<not> isFinite val"

text \<open>The callback of \<^verbatim>\<open>map\<close>: the numbers of one line (the log line has no effect).\<close>

definition lineValues :: "jsstring \<Rightarrow> jsnumber list" where
  "lineValues line = map Number (split_ws (trim line))"

text \<open>
  Modelled from the spec: \<^verbatim>\<open>createDefaultCubeData\<close> is defined outside \<^verbatim>\<open>shaders.js\<close>.
  The spec describes what it returns as a built-in, fixed series (a unit cube); that
  series is the parameter \<open>createDefaultCubeData\<close>. No operation of the \<^verbatim>\<open>try\<close>
  block raises on a string, so its \<^verbatim>\<open>catch\<close> branch has no counterpart here.
\<close>

definition parseDataFile :: "jsnumber list \<Rightarrow> jsstring \<Rightarrow> jsnumber list" where
  "parseDataFile createDefaultCubeData text0 =
     (let text = removeBOM text0 in
      if text = [] \<or> trim text = [] then createDefaultCubeData
      else
        (let result =
               concat (filter (\<lambda>values. \<not> list_ex invalid values)
                 (map lineValues (split LF (trim text))))
         in if length result > 0 then result else createDefaultCubeData))"

section \<open>Attribute Packer\<close>

text \<open>
  Modelled from the spec: the class \<^verbatim>\<open>Attributes\<close> (\<^verbatim>\<open>addAttribute\<close>, \<^verbatim>\<open>getStride\<close>,
  \<^verbatim>\<open>getBuffer\<close> and the \<^verbatim>\<open>offset\<close> of an attribute), which \<^verbatim>\<open>setupVertexBuffers\<close> and
  \<^verbatim>\<open>drawTruck\<close> call, is defined outside \<^verbatim>\<open>shaders.js\<close>. The definitions of this section
  follow section 4.3 of the specification. A scalar takes 4 bytes; the buffer is the
  sequence of its scalars, so that the byte position \<open>p\<close> is the scalar \<open>p div 4\<close> and the
  length in bytes is 4 times the number of scalars.
\<close>

definition scalarSize :: nat where
  "scalarSize = 4"

text \<open>Modelled from the spec: a named attribute is a name, a series and a width.\<close>

record attribute =
  attrName :: string
  series :: "jsnumber list"
  width :: nat

datatype pack_error = VertexCountMismatch

text \<open>Modelled from the spec: the output is the buffer, the stride and the offset table.\<close>

record packed =
  buffer :: "jsnumber list"
  stride :: nat
  offsets :: "nat list"

definition byteLength :: "jsnumber list \<Rightarrow> nat" where
  "byteLength buf = scalarSize * length buf"

text \<open>Modelled from the spec: the stride is the sum of the widths times the scalar size.\<close>

definition getStride :: "attribute list \<Rightarrow> nat" where
  "getStride attrs = sum_list (map width attrs) * scalarSize"

text \<open>
  Modelled from the spec: the byte offset of an attribute is the running sum of the byte
  widths of the attributes before it, in insertion order; the first offset is 0.
\<close>

fun offsetsFrom :: "nat \<Rightarrow> attribute list \<Rightarrow> nat list" where
  "offsetsFrom acc [] = []"
| "offsetsFrom acc (a # as) = acc # offsetsFrom (acc + width a * scalarSize) as"

definition getOffsets :: "attribute list \<Rightarrow> nat list" where
  "getOffsets attrs = offsetsFrom 0 attrs"

text \<open>
  Modelled from the spec: the vertex count is that of the first attribute, the length of
  its series over its width.
\<close>

definition vertexCount :: "attribute list \<Rightarrow> nat" where
  "vertexCount attrs = (case attrs of [] \<Rightarrow> 0 | a # _ \<Rightarrow> length (series a) div width a)"

text \<open>
  Modelled from the spec: for the vertex \<open>v\<close>, for each attribute in insertion order, the
  \<open>width\<close> scalars of the attribute for \<open>v\<close> are written at the byte position
  \<open>v * stride + offset\<close>. A write is a pair of a scalar position and a value.
\<close>

definition vertexWrites ::
  "attribute list \<Rightarrow> nat \<Rightarrow> nat list \<Rightarrow> nat \<Rightarrow> (nat \<times> jsnumber) list" where
  "vertexWrites attrs strd offs v =
     concat (map (\<lambda>(a, off).
        map (\<lambda>c. ((v * strd + off) div scalarSize + c, series a ! (v * width a + c)))
          [0..<width a])
       (zip attrs offs))"

text \<open>
  Modelled from the spec: a buffer of \<open>vertexCount * stride\<close> bytes is allocated (zeros),
  and the writes of every vertex are done in the order of the vertices.
\<close>

definition getBuffer :: "attribute list \<Rightarrow> jsnumber list" where
  "getBuffer attrs =
     fold (\<lambda>(p, x) buf. buf[p := x])
       (concat (map (vertexWrites attrs (getStride attrs) (getOffsets attrs))
          [0..<vertexCount attrs]))
       (replicate (vertexCount attrs * getStride attrs div scalarSize) (Zero False))"

text \<open>
  Modelled from the spec: attributes that disagree on the vertex count are a contract
  violation, surfaced as an error; no read is then out of range in \<open>vertexWrites\<close>.
\<close>

definition pack :: "attribute list \<Rightarrow> pack_error + packed" where
  "pack attrs =
     (if list_all (\<lambda>a. length (series a) = vertexCount attrs * width a) attrs
      then Inr \<lparr> buffer = getBuffer attrs, stride = getStride attrs, offsets = getOffsets attrs \<rparr>
      else Inl VertexCountMismatch)"

text \<open>
  Modelled from the spec: reading the \<open>w\<close> scalars of an attribute for the vertex \<open>v\<close> at
  the byte position \<open>v * stride + offset\<close>.
\<close>

definition readAttribute :: "jsnumber list \<Rightarrow> nat \<Rightarrow> nat \<Rightarrow> nat \<Rightarrow> nat \<Rightarrow> jsnumber list" where
  "readAttribute buf strd off w v =
     take w (drop ((v * strd + off) div scalarSize) buf)"

section \<open>Notions used to state the properties\<close>

text \<open>
  \<open>canonical x\<close> is \<open>x\<close> with the sign of a zero dropped: \<open>canonical x = canonical y\<close> is
  the comparison SameValueZero of ECMA-262, under which \<open>+0\<close> and \<open>-0\<close> are the same
  number and \<open>NaN\<close> is equal to itself.
\<close>

definition canonical :: "jsnumber \<Rightarrow> jsnumber" where
  "canonical x = (case x of Zero neg \<Rightarrow> Zero False | _ \<Rightarrow> x)"

text \<open>The \<open>j\<close>-th RGB triple of a flat series, for \<open>3 * j + 2 < length a\<close>.\<close>

definition triple :: "jsnumber list \<Rightarrow> nat \<Rightarrow> jsnumber \<times> jsnumber \<times> jsnumber" where
  "triple a j = (a ! (3 * j), a ! (3 * j + 1), a ! (3 * j + 2))"

definition canonicalTriple :: "jsnumber list \<Rightarrow> nat \<Rightarrow> jsnumber \<times> jsnumber \<times> jsnumber" where
  "canonicalTriple a j =
     (canonical (a ! (3 * j)), canonical (a ! (3 * j + 1)), canonical (a ! (3 * j + 2)))"

text \<open>The keys the loop computes, one for each start index \<open>0, 3, 6, \<dots>\<close> below the length.\<close>

definition colorKeys :: "jsnumber list \<Rightarrow> string list" where
  "colorKeys a = map (\<lambda>j. colorKey a (3 * j)) [0..<(length a + 2) div 3]"

text \<open>
  The loader's view of a text: whether it is empty or white space only, the lines it
  splits it into, the tokens of a line, whether every token of a line is a finite
  number, and the numbers of the lines that are.
\<close>

definition isBlank :: "jsstring \<Rightarrow> bool" where
  "isBlank s \<longleftrightarrow> list_all isWhiteSpace s"

definition dataLines :: "jsstring \<Rightarrow> jsstring list" where
  "dataLines text = split LF (trim (removeBOM text))"

definition tokens :: "jsstring \<Rightarrow> jsstring list" where
  "tokens line = split_ws (trim line)"

definition validLine :: "jsstring \<Rightarrow> bool" where
  "validLine line \<longleftrightarrow> (\<forall>t\<in>set (tokens line). isFinite (Number t))"

definition survivingValues :: "jsstring list \<Rightarrow> jsnumber list" where
  "survivingValues ls = concat (map (\<lambda>line. map Number (tokens line)) (filter validLine ls))"

text \<open>The loop as a fold over its keys, and the distinct keys in the order they are met.\<close>

definition dedup_keys :: "string list \<Rightarrow> dedup_state" where
  "dedup_keys ks = fold dedup_step ks dedup_init"

definition first_seen :: "'a list \<Rightarrow> 'a list" where
  "first_seen ks = rev (remdups (rev ks))"

text \<open>Digit strings, and the significant digits of a number printed in fixed notation.\<close>

definition digits :: "string \<Rightarrow> bool" where
  "digits s \<longleftrightarrow> (\<forall>c\<in>set s. 48 \<le> (of_char c :: nat) \<and> (of_char c :: nat) \<le> 57)"

definition sigdigits :: "string \<Rightarrow> bool" where
  "sigdigits ds \<longleftrightarrow>
     ds \<noteq> [] \<and> (\<forall>c\<in>set ds. 48 \<le> (of_char c :: nat) \<and> (of_char c :: nat) \<le> 57) \<and>
     hd ds \<noteq> CHR ''0'' \<and> last ds \<noteq> CHR ''0''"

definition core :: "string \<Rightarrow> string" where
  "core s =
     rev (dropWhile (\<lambda>c. c = CHR ''0'')
       (rev (dropWhile (\<lambda>c. c = CHR ''0'') (filter (\<lambda>c. c \<noteq> CHR ''.'') s))))"

section \<open>Number to string is injective up to the sign of zero\<close>

lemma of_char_digit_char: "d < 10 \<Longrightarrow> (of_char (digit_char d) :: nat) = 48 + d"
proof -
  assume "d < 10"
  then have "(48 + d) mod 256 = 48 + d" by simp
  then show ?thesis unfolding digit_char_def of_char_of .
qed

lemma digit_char_inj: "a < 10 \<Longrightarrow> b < 10 \<Longrightarrow> digit_char a = digit_char b \<Longrightarrow> a = b"
proof -
  assume a: "a < 10" and b: "b < 10" and eq: "digit_char a = digit_char b"
  have "(of_char (digit_char a) :: nat) = of_char (digit_char b)" by (simp only: eq)
  then have "48 + a = 48 + b"
    by (simp only: of_char_digit_char [OF a] of_char_digit_char [OF b])
  then show ?thesis by simp
qed

lemma digit_char_zero: "d < 10 \<Longrightarrow> digit_char d = CHR ''0'' \<longleftrightarrow> d = 0"
proof
  assume d: "d < 10" and eq: "digit_char d = CHR ''0''"
  have "(of_char (digit_char d) :: nat) = of_char CHR ''0''" by (simp only: eq)
  then have "48 + d = (of_char CHR ''0'' :: nat)" by (simp only: of_char_digit_char [OF d])
  then show "d = 0" by simp
next
  assume "d = 0"
  have "digit_char 0 = CHR ''0''" unfolding digit_char_def by code_simp
  with \<open>d = 0\<close> show "digit_char d = CHR ''0''" by simp
qed

lemma dec_nonempty: "dec n \<noteq> []"
  by (subst dec.simps) simp

lemma digits_dec: "digits (dec n)"
proof (induction n rule: dec.induct)
  case (1 n)
  show ?case
  proof (cases "n < 10")
    case True
    then show ?thesis
      by (subst dec.simps) (simp add: digits_def of_char_digit_char)
  next
    case False
    have "n mod 10 < 10" by simp
    then have "(of_char (digit_char (n mod 10)) :: nat) = 48 + n mod 10"
      by (rule of_char_digit_char)
    with False 1 show ?thesis
      by (subst dec.simps) (simp add: digits_def)
  qed
qed

lemma last_dec: "last (dec n) = digit_char (n mod 10)"
  by (subst dec.simps) simp

lemma hd_dec: "0 < n \<Longrightarrow> hd (dec n) \<noteq> CHR ''0''"
proof (induction n rule: dec.induct)
  case (1 n)
  show ?case
  proof (cases "n < 10")
    case True
    with 1 show ?thesis by (subst dec.simps) (simp add: digit_char_zero)
  next
    case False
    then have "0 < n div 10" by simp
    with False 1 show ?thesis
      by (subst dec.simps) (simp add: dec_nonempty)
  qed
qed

lemma dec_inj: "dec m = dec n \<Longrightarrow> m = n"
proof (induction m arbitrary: n rule: dec.induct)
  case (1 m)
  show ?case
  proof (cases "m < 10")
    case m: True
    show ?thesis
    proof (cases "n < 10")
      case True
      with m 1(2) show ?thesis
        by (simp add: dec.simps [of m] dec.simps [of n] digit_char_inj)
    next
      case False
      with m 1(2) have "[digit_char m] = dec (n div 10) @ [digit_char (n mod 10)]"
        by (simp add: dec.simps [of m] dec.simps [of n])
      then have "dec (n div 10) = []" by simp
      then show ?thesis by (simp add: dec_nonempty)
    qed
  next
    case m: False
    show ?thesis
    proof (cases "n < 10")
      case True
      with m 1(2) show ?thesis
        by (simp add: dec.simps [of m] dec.simps [of n] dec_nonempty)
    next
      case False
      with m 1(2) have eq: "dec (m div 10) = dec (n div 10)"
        and d: "digit_char (m mod 10) = digit_char (n mod 10)"
        by (simp_all add: dec.simps [of m] dec.simps [of n])
      from 1(1) [OF m eq] have "m div 10 = n div 10" .
      moreover from d have "m mod 10 = n mod 10" by (simp add: digit_char_inj)
      ultimately show ?thesis by (metis div_mult_mod_eq)
    qed
  qed
qed


lemma digits_append: "digits (xs @ ys) \<longleftrightarrow> digits xs \<and> digits ys"
  by (auto simp: digits_def)

lemma digits_replicate0: "digits (replicate m CHR ''0'')"
  by (simp add: digits_def)

lemma digits_notin:
  "digits ds \<Longrightarrow> (of_char c :: nat) < 48 \<or> 57 < (of_char c :: nat) \<Longrightarrow> c \<notin> set ds"
  by (auto simp: digits_def)

lemma digits_no_dot: "digits ds \<Longrightarrow> CHR ''.'' \<notin> set ds"
  by (rule digits_notin) simp_all

lemma digits_no_e: "digits ds \<Longrightarrow> CHR ''e'' \<notin> set ds"
  by (rule digits_notin) simp_all

lemma digits_no_comma: "digits ds \<Longrightarrow> CHR '','' \<notin> set ds"
  by (rule digits_notin) simp_all

lemma digits_take: "digits ds \<Longrightarrow> digits (take n ds)"
  by (auto simp: digits_def dest: in_set_takeD)

lemma digits_drop: "digits ds \<Longrightarrow> digits (drop n ds)"
  by (auto simp: digits_def dest: in_set_dropD)

lemma filter_dot_digits: "digits ds \<Longrightarrow> filter (\<lambda>c. c \<noteq> CHR ''.'') ds = ds"
  using digits_no_dot [of ds] by (auto simp: filter_id_conv)

lemma dropWhile0_sig:
  "ds \<noteq> [] \<Longrightarrow> hd ds \<noteq> CHR ''0'' \<Longrightarrow>
   dropWhile (\<lambda>c. c = CHR ''0'') (replicate m CHR ''0'' @ ds) = ds"
  by (induction m) (cases ds; simp)+

lemma strip_zeros:
  assumes "sigdigits ds"
  shows "rev (dropWhile (\<lambda>c. c = CHR ''0'')
           (rev (dropWhile (\<lambda>c. c = CHR ''0'')
             (replicate a CHR ''0'' @ ds @ replicate b CHR ''0'')))) = ds"
proof -
  from assms have ne: "ds \<noteq> []" and h: "hd ds \<noteq> CHR ''0''" and l: "last ds \<noteq> CHR ''0''"
    by (simp_all add: sigdigits_def)
  have ne': "ds @ replicate b CHR ''0'' \<noteq> []" and h': "hd (ds @ replicate b CHR ''0'') \<noteq> CHR ''0''"
    using ne h by simp_all
  have 1: "dropWhile (\<lambda>c. c = CHR ''0'') (replicate a CHR ''0'' @ ds @ replicate b CHR ''0'')
        = ds @ replicate b CHR ''0''"
    by (rule dropWhile0_sig [OF ne' h'])
  have 2: "rev (ds @ replicate b CHR ''0'') = replicate b CHR ''0'' @ rev ds"
    by simp
  have 3: "dropWhile (\<lambda>c. c = CHR ''0'') (replicate b CHR ''0'' @ rev ds) = rev ds"
    by (rule dropWhile0_sig) (use ne l in \<open>simp_all add: hd_rev\<close>)
  show ?thesis by (simp only: 1 2 3 rev_rev_ident)
qed

text \<open>The three shapes of a rendered number.\<close>

lemma render_fixed_pos:
  assumes s: "sigdigits ds" and n: "0 < e + int (length ds)" "e + int (length ds) \<le> 21"
  shows "CHR ''e'' \<notin> set (render ds e)"
    and "core (render ds e) = ds"
    and "hd (render ds e) \<noteq> CHR ''0''"
    and "int (length (takeWhile (\<lambda>c. c \<noteq> CHR ''.'') (render ds e))) = e + int (length ds)"
proof -
  from s have ne: "ds \<noteq> []" and h: "hd ds \<noteq> CHR ''0''" and d: "digits ds"
    by (simp_all add: sigdigits_def digits_def)
  show "CHR ''e'' \<notin> set (render ds e)"
    using digits_no_e [OF d] n
    by (auto simp: render_def Let_def dest: in_set_takeD in_set_dropD)
  show "core (render ds e) = ds"
  proof (cases "0 \<le> e")
    case True
    then have r: "render ds e = ds @ replicate (nat e) CHR ''0''"
      using n by (simp add: render_def Let_def)
    have "digits (ds @ replicate (nat e) CHR ''0'')"
      using d by (simp add: digits_append digits_replicate0)
    then have f: "filter (\<lambda>c. c \<noteq> CHR ''.'') (ds @ replicate (nat e) CHR ''0'')
        = ds @ replicate (nat e) CHR ''0''"
      by (rule filter_dot_digits)
    show ?thesis
      unfolding core_def r f using strip_zeros [OF s, of 0 "nat e"] by simp
  next
    case False
    then have r: "render ds e =
        take (nat (e + int (length ds))) ds @ ''.'' @ drop (nat (e + int (length ds))) ds"
      using n by (simp add: render_def Let_def)
    have f: "filter (\<lambda>c. c \<noteq> CHR ''.'') (render ds e) = ds"
      unfolding r
      using filter_dot_digits [OF digits_take [OF d]] filter_dot_digits [OF digits_drop [OF d]]
      by simp
    show ?thesis
      unfolding core_def f using strip_zeros [OF s, of 0 0] by simp
  qed
  show "hd (render ds e) \<noteq> CHR ''0''"
    using n ne h by (auto simp: render_def Let_def hd_append)
  show "int (length (takeWhile (\<lambda>c. c \<noteq> CHR ''.'') (render ds e))) = e + int (length ds)"
  proof (cases "0 \<le> e")
    case True
    then have r: "render ds e = ds @ replicate (nat e) CHR ''0''"
      using n by (simp add: render_def Let_def)
    have "digits (ds @ replicate (nat e) CHR ''0'')"
      using d by (simp add: digits_append digits_replicate0)
    then have "CHR ''.'' \<notin> set (ds @ replicate (nat e) CHR ''0'')"
      by (rule digits_no_dot)
    then have "takeWhile (\<lambda>c. c \<noteq> CHR ''.'') (ds @ replicate (nat e) CHR ''0'')
        = ds @ replicate (nat e) CHR ''0''"
      by (simp only: takeWhile_eq_all_conv) blast
    then show ?thesis using True by (simp add: r)
  next
    case False
    then have r: "render ds e =
        take (nat (e + int (length ds))) ds @ CHR ''.'' # drop (nat (e + int (length ds))) ds"
      using n by (simp add: render_def Let_def)
    have "CHR ''.'' \<notin> set (take (nat (e + int (length ds))) ds)"
      by (rule digits_no_dot [OF digits_take [OF d]])
    then have "takeWhile (\<lambda>c. c \<noteq> CHR ''.'') (render ds e) = take (nat (e + int (length ds))) ds"
      unfolding r by (subst takeWhile_append2) auto
    then show ?thesis using False n by simp
  qed
qed

lemma render_fixed_neg:
  assumes s: "sigdigits ds" and n: "- 6 < e + int (length ds)" "e + int (length ds) \<le> 0"
  shows "CHR ''e'' \<notin> set (render ds e)"
    and "core (render ds e) = ds"
    and "hd (render ds e) = CHR ''0''"
    and "int (length (render ds e)) = 2 - e"
proof -
  from s have ne: "ds \<noteq> []" and h: "hd ds \<noteq> CHR ''0''" and d: "digits ds"
    by (simp_all add: sigdigits_def digits_def)
  have k: "0 < int (length ds)" using ne by simp
  have "e < 0" using n k by linarith
  then have r: "render ds e = ''0.'' @ replicate (nat (- (e + int (length ds)))) CHR ''0'' @ ds"
    using n by (simp add: render_def Let_def)
  show "CHR ''e'' \<notin> set (render ds e)"
    using digits_no_e [OF d] by (simp add: r)
  have f: "filter (\<lambda>c. c \<noteq> CHR ''.'') (render ds e)
      = replicate (Suc (nat (- (e + int (length ds))))) CHR ''0'' @ ds"
    unfolding r using filter_dot_digits [OF d] by simp
  show "core (render ds e) = ds"
    unfolding core_def f using strip_zeros [OF s, of "Suc (nat (- (e + int (length ds))))" 0]
    by simp
  show "hd (render ds e) = CHR ''0''" by (simp add: r)
  show "int (length (render ds e)) = 2 - e" using n by (simp add: r)
qed


lemma render_exp:
  assumes s: "sigdigits ds" and n: "21 < e + int (length ds) \<or> e + int (length ds) \<le> - 6"
  shows "CHR ''e'' \<in> set (render ds e)"
    and "filter (\<lambda>c. c \<noteq> CHR ''.'') (takeWhile (\<lambda>c. c \<noteq> CHR ''e'') (render ds e)) = ds"
    and "dropWhile (\<lambda>c. c \<noteq> CHR ''e'') (render ds e) =
           CHR ''e'' # (if 0 \<le> e + int (length ds) - 1 then CHR ''+'' else CHR ''-'') #
             dec (nat \<bar>e + int (length ds) - 1\<bar>)"
proof -
  from s have ne: "ds \<noteq> []" and d: "digits ds"
    by (simp_all add: sigdigits_def digits_def)
  define m where "m = (if length ds = 1 then ds else take 1 ds @ ''.'' @ drop 1 ds)"
  define x where "x = (if 0 \<le> e + int (length ds) - 1 then CHR ''+'' else CHR ''-'') #
             dec (nat \<bar>e + int (length ds) - 1\<bar>)"
  have k: "0 < int (length ds)" using ne by simp
  have c1: "\<not> (int (length ds) \<le> e + int (length ds) \<and> e + int (length ds) \<le> 21)"
    using n k by linarith
  have c2: "\<not> (0 < e + int (length ds) \<and> e + int (length ds) \<le> 21)"
    using n by linarith
  have c3: "\<not> (- 6 < e + int (length ds) \<and> e + int (length ds) \<le> 0)"
    using n by linarith
  have r: "render ds e = m @ CHR ''e'' # x"
    unfolding render_def Let_def m_def x_def
    by (simp only: c1 c2 c3 if_False) simp
  have me: "CHR ''e'' \<notin> set m"
    using digits_no_e [OF d] by (auto simp: m_def dest: in_set_takeD in_set_dropD)
  have mf: "filter (\<lambda>c. c \<noteq> CHR ''.'') m = ds"
    unfolding m_def
    using filter_dot_digits [OF d] filter_dot_digits [OF digits_take [OF d, of 1]]
      filter_dot_digits [OF digits_drop [OF d, of 1]]
    by simp
  show "CHR ''e'' \<in> set (render ds e)" by (simp add: r)
  have tw: "takeWhile (\<lambda>c. c \<noteq> CHR ''e'') (render ds e) = m"
    unfolding r using me by (subst takeWhile_append2) auto
  show "filter (\<lambda>c. c \<noteq> CHR ''.'') (takeWhile (\<lambda>c. c \<noteq> CHR ''e'') (render ds e)) = ds"
    by (simp only: tw mf)
  have "dropWhile (\<lambda>c. c \<noteq> CHR ''e'') (render ds e) = CHR ''e'' # x"
    unfolding r using me by (subst dropWhile_append2) auto
  then show "dropWhile (\<lambda>c. c \<noteq> CHR ''e'') (render ds e) =
           CHR ''e'' # (if 0 \<le> e + int (length ds) - 1 then CHR ''+'' else CHR ''-'') #
             dec (nat \<bar>e + int (length ds) - 1\<bar>)"
    by (simp only: x_def)
qed

lemma render_inj:
  assumes a: "sigdigits ds" and b: "sigdigits ds'" and eq: "render ds e = render ds' e'"
  shows "ds = ds' \<and> e = e'"
proof -
  let ?n = "e + int (length ds)" and ?n' = "e' + int (length ds')"
  consider (pos) "0 < ?n" "?n \<le> 21" | (neg) "- 6 < ?n" "?n \<le> 0" | (exp) "21 < ?n \<or> ?n \<le> - 6"
    by linarith
  then show ?thesis
  proof cases
    case pos
    note p = render_fixed_pos [OF a pos]
    consider (pos') "0 < ?n'" "?n' \<le> 21" | (neg') "- 6 < ?n'" "?n' \<le> 0"
      | (exp') "21 < ?n' \<or> ?n' \<le> - 6"
      by linarith
    then show ?thesis
    proof cases
      case pos'
      note q = render_fixed_pos [OF b pos']
      from p(2) q(2) eq have "ds = ds'" by simp
      moreover from p(4) q(4) eq have "?n = ?n'" by simp
      ultimately show ?thesis by simp
    next
      case neg'
      from p(3) render_fixed_neg(3) [OF b neg'] eq show ?thesis by simp
    next
      case exp'
      from p(1) render_exp(1) [OF b exp'] eq show ?thesis by simp
    qed
  next
    case neg
    note p = render_fixed_neg [OF a neg]
    consider (pos') "0 < ?n'" "?n' \<le> 21" | (neg') "- 6 < ?n'" "?n' \<le> 0"
      | (exp') "21 < ?n' \<or> ?n' \<le> - 6"
      by linarith
    then show ?thesis
    proof cases
      case pos'
      from p(3) render_fixed_pos(3) [OF b pos'] eq show ?thesis by simp
    next
      case neg'
      note q = render_fixed_neg [OF b neg']
      from p(2) q(2) eq have "ds = ds'" by simp
      moreover from p(4) q(4) eq have "e = e'" by simp
      ultimately show ?thesis by simp
    next
      case exp'
      from p(1) render_exp(1) [OF b exp'] eq show ?thesis by simp
    qed
  next
    case exp
    note p = render_exp [OF a exp]
    consider (pos') "0 < ?n'" "?n' \<le> 21" | (neg') "- 6 < ?n'" "?n' \<le> 0"
      | (exp') "21 < ?n' \<or> ?n' \<le> - 6"
      by linarith
    then show ?thesis
    proof cases
      case pos'
      from p(1) render_fixed_pos(1) [OF b pos'] eq show ?thesis by simp
    next
      case neg'
      from p(1) render_fixed_neg(1) [OF b neg'] eq show ?thesis by simp
    next
      case exp'
      note q = render_exp [OF b exp']
      from p(2) q(2) eq have ds: "ds = ds'" by simp
      from p(3) q(3) eq have
        sg: "(0 \<le> ?n - 1) = (0 \<le> ?n' - 1)" and
        dc: "dec (nat \<bar>?n - 1\<bar>) = dec (nat \<bar>?n' - 1\<bar>)"
        by (simp_all split: if_splits)
      from dc have "nat \<bar>?n - 1\<bar> = nat \<bar>?n' - 1\<bar>" by (rule dec_inj)
      with sg have "?n = ?n'" by linarith
      with ds show ?thesis by simp
    qed
  qed
qed

lemma render_hd_digit:
  assumes "sigdigits ds"
  shows "48 \<le> (of_char (hd (render ds e)) :: nat) \<and> (of_char (hd (render ds e)) :: nat) \<le> 57"
proof -
  from assms have ne: "ds \<noteq> []" and "digits ds"
    by (simp_all add: sigdigits_def digits_def)
  then have h: "48 \<le> (of_char (hd ds) :: nat) \<and> (of_char (hd ds) :: nat) \<le> 57"
    by (cases ds) (simp_all add: digits_def)
  have "hd (render ds e) = hd ds \<or> hd (render ds e) = CHR ''0''"
    using ne by (auto simp: render_def Let_def hd_append)
  with h show ?thesis by auto
qed

lemma render_not_zero: "sigdigits ds \<Longrightarrow> render ds e \<noteq> ''0''"
proof
  assume s: "sigdigits ds" and r: "render ds e = ''0''"
  have c: "core ''0'' = []" by (simp add: core_def)
  consider (pos) "0 < e + int (length ds)" "e + int (length ds) \<le> 21"
    | (neg) "- 6 < e + int (length ds)" "e + int (length ds) \<le> 0"
    | (exp) "21 < e + int (length ds) \<or> e + int (length ds) \<le> - 6"
    by linarith
  then show False
  proof cases
    case pos
    from render_fixed_pos(3) [OF s pos] r show False by simp
  next
    case neg
    from render_fixed_neg(2) [OF s neg] r c s show False by (simp add: sigdigits_def)
  next
    case exp
    from render_exp(1) [OF s exp] r show False by simp
  qed
qed

lemma nzval_range: "0 < nzval d \<and> nzval d < 10"
  by (cases d) simp_all

lemma nzval_inj: "nzval d = nzval d' \<Longrightarrow> d = d'"
  by (cases d; cases d') simp_all

lemma sigdigits_significand: "sigdigits (dec (significand p d))"
proof -
  have pos: "0 < significand p d" using nzval_range [of d] by (simp add: significand_def)
  have m: "significand p d mod 10 = nzval d"
    using nzval_range [of d] by (simp add: significand_def)
  have "last (dec (significand p d)) \<noteq> CHR ''0''"
    using nzval_range [of d] by (simp add: last_dec m digit_char_zero)
  moreover have "\<forall>c\<in>set (dec (significand p d)). 48 \<le> (of_char c :: nat) \<and> (of_char c :: nat) \<le> 57"
    using digits_dec [of "significand p d"] by (simp add: digits_def)
  ultimately show ?thesis
    using hd_dec [OF pos] dec_nonempty by (simp add: sigdigits_def)
qed

lemma significand_inj:
  "dec (significand p d) = dec (significand p' d') \<Longrightarrow> p = p' \<and> d = d'"
proof -
  assume "dec (significand p d) = dec (significand p' d')"
  then have eq: "10 * p + nzval d = 10 * p' + nzval d'"
    unfolding significand_def by (rule dec_inj)
  have "nzval d = nzval d'"
    using eq nzval_range [of d] nzval_range [of d'] by presburger
  then show ?thesis using eq nzval_inj by auto
qed

lemma render_neq_Cons:
  assumes "sigdigits ds" and "(of_char c :: nat) < 48 \<or> 57 < (of_char c :: nat)"
  shows "render ds e \<noteq> c # r"
proof
  assume "render ds e = c # r"
  then have "hd (render ds e) = c" by simp
  with render_hd_digit [OF assms(1), of e] assms(2) show False by auto
qed

lemma render_neq_Cons': "sigdigits ds \<Longrightarrow> (of_char c :: nat) < 48 \<or> 57 < (of_char c :: nat) \<Longrightarrow> c # r \<noteq> render ds e"
  using render_neq_Cons by metis

lemma NumberToString_canonical: "NumberToString (canonical x) = NumberToString x"
  by (cases x) (simp_all add: canonical_def)

lemma NumberToString_inj:
  assumes "NumberToString x = NumberToString y"
  shows "canonical x = canonical y"
proof (cases x)
  case NaN
  with assms show ?thesis
    by (cases y) (auto simp: canonical_def render_neq_Cons' [OF sigdigits_significand] split: if_splits)
next
  case (Infinity b)
  with assms show ?thesis
    by (cases y) (auto simp: canonical_def render_neq_Cons' [OF sigdigits_significand] split: if_splits)
next
  case (Zero b)
  with assms show ?thesis
    using render_not_zero [OF sigdigits_significand]
    by (cases y) (auto simp: canonical_def split: if_splits dest: sym)
next
  case x: (Finite neg p d e)
  show ?thesis
  proof (cases y)
    case NaN
    with assms x show ?thesis
      by (auto simp: render_neq_Cons [OF sigdigits_significand] split: if_splits)
  next
    case (Infinity b)
    with assms x show ?thesis
      by (auto simp: render_neq_Cons [OF sigdigits_significand] split: if_splits)
  next
    case (Zero b)
    with assms x show ?thesis
      using render_not_zero [OF sigdigits_significand]
      by (auto split: if_splits)
  next
    case y: (Finite neg' p' d' e')
    have sg: "neg = neg'"
      using assms x y
      by (auto simp: render_neq_Cons [OF sigdigits_significand]
          render_neq_Cons' [OF sigdigits_significand] split: if_splits)
    with assms x y have "render (dec (significand p d)) e = render (dec (significand p' d')) e'"
      by simp
    from render_inj [OF sigdigits_significand sigdigits_significand this]
    have "dec (significand p d) = dec (significand p' d')" and "e = e'"
      by simp_all
    with significand_inj [of p d p' d'] have "p = p' \<and> d = d'" and "e = e'"
      by simp_all
    with sg x y show ?thesis by simp
  qed
qed

lemma NumberToString_eq_iff:
  "NumberToString x = NumberToString y \<longleftrightarrow> canonical x = canonical y"
  using NumberToString_inj NumberToString_canonical by metis

lemma render_no_comma: "digits ds \<Longrightarrow> CHR '','' \<notin> set (render ds e)"
  using digits_no_comma [of ds] digits_no_comma [OF digits_dec]
  by (auto simp: render_def Let_def dest: in_set_takeD in_set_dropD)

lemma NumberToString_no_comma: "CHR '','' \<notin> set (NumberToString x)"
  using render_no_comma [OF digits_dec]
  by (cases x) auto

lemma NumberToString_not_undefined: "NumberToString x \<noteq> ''undefined''"
  by (cases x) (auto simp: render_neq_Cons [OF sigdigits_significand] split: if_splits)

lemma ToString_no_comma: "CHR '','' \<notin> set (ToString v)"
  by (cases v) (simp_all add: NumberToString_no_comma)

lemma ToString_eq_iff:
  "ToString u = ToString v \<longleftrightarrow> map_option canonical u = map_option canonical v"
  using NumberToString_not_undefined
  by (cases u; cases v) (auto simp: NumberToString_eq_iff dest: sym)

lemma split_at_first:
  "x \<notin> set xs \<Longrightarrow> x \<notin> set xs' \<Longrightarrow>
   xs @ x # ys = xs' @ x # ys' \<longleftrightarrow> xs = xs' \<and> ys = ys'"
proof (induction xs arbitrary: xs')
  case Nil
  then show ?case by (cases xs') auto
next
  case (Cons a xs)
  then show ?case by (cases xs') auto
qed

lemma key_eq_iff:
  assumes "CHR '','' \<notin> set a" "CHR '','' \<notin> set b" "CHR '','' \<notin> set a'" "CHR '','' \<notin> set b'"
  shows "a @ '','' @ b @ '','' @ c = a' @ '','' @ b' @ '','' @ c' \<longleftrightarrow> a = a' \<and> b = b' \<and> c = c'"
proof -
  have 1: "(a @ CHR '','' # r = a' @ CHR '','' # r') = (a = a' \<and> r = r')" for r r'
    using assms by (simp add: split_at_first)
  have 2: "(b @ CHR '','' # r = b' @ CHR '','' # r') = (b = b' \<and> r = r')" for r r'
    using assms by (simp add: split_at_first)
  show ?thesis by (simp add: 1 2)
qed

lemma colorKey_eq_iff:
  "colorKey a i = colorKey b j \<longleftrightarrow>
     map_option canonical (at_index a i) = map_option canonical (at_index b j) \<and>
     map_option canonical (at_index a (i + 1)) = map_option canonical (at_index b (j + 1)) \<and>
     map_option canonical (at_index a (i + 2)) = map_option canonical (at_index b (j + 2))"
  unfolding colorKey_def
  by (simp only: key_eq_iff [OF ToString_no_comma ToString_no_comma ToString_no_comma ToString_no_comma]
      ToString_eq_iff)

section \<open>The deduplication loop\<close>

lemma first_seen_Nil: "first_seen [] = []"
  by (simp add: first_seen_def)

lemma first_seen_snoc:
  "first_seen (ks @ [k]) = (if k \<in> set ks then first_seen ks else first_seen ks @ [k])"
  by (simp add: first_seen_def)

lemma set_first_seen: "set (first_seen ks) = set ks"
  by (simp add: first_seen_def)

lemma distinct_first_seen: "distinct (first_seen ks)"
  by (simp add: first_seen_def)

lemma length_first_seen: "length (first_seen ks) = card (set ks)"
  using distinct_card [OF distinct_first_seen, of ks] by (simp add: set_first_seen)

lemma dedup_loop_fold:
  "dedup_loop a (3 * j) st =
     fold dedup_step (map (\<lambda>j. colorKey a (3 * j)) [j..<(length a + 2) div 3]) st"
proof (induction "(length a + 2) div 3 - j" arbitrary: j st)
  case 0
  then have "\<not> 3 * j < length a" by linarith
  moreover from 0 have "[j..<(length a + 2) div 3] = []" by simp
  ultimately show ?case by (simp add: dedup_loop.simps)
next
  case (Suc m)
  then have lt: "j < (length a + 2) div 3" by linarith
  then have lt3: "3 * j < length a" by linarith
  have m: "m = (length a + 2) div 3 - Suc j" using Suc.hyps(2) by linarith
  have "dedup_loop a (3 * j) st = dedup_loop a (3 * Suc j) (dedup_step (colorKey a (3 * j)) st)"
    using lt3 by (subst dedup_loop.simps) (simp add: algebra_simps)
  also have "\<dots> = fold dedup_step (map (\<lambda>j. colorKey a (3 * j)) [Suc j..<(length a + 2) div 3])
       (dedup_step (colorKey a (3 * j)) st)"
    by (rule Suc.hyps(1) [OF m])
  finally show ?case using lt by (simp add: upt_conv_Cons)
qed

lemma dedup_run_keys: "dedup_run a = dedup_keys (colorKeys a)"
  using dedup_loop_fold [of a 0 dedup_init]
  by (simp add: dedup_run_def dedup_keys_def colorKeys_def)

lemma dedup_keys_Nil: "dedup_keys [] = dedup_init"
  by (simp add: dedup_keys_def)

lemma dedup_keys_snoc: "dedup_keys (ks @ [k]) = dedup_step k (dedup_keys ks)"
  by (simp add: dedup_keys_def)

lemma dedup_step_seen:
  "map_of (colorMap st) k = Some v \<Longrightarrow>
   dedup_step k st = st \<lparr> colorIndices := colorIndices st @ [v] \<rparr>"
  by (simp add: dedup_step_def)

lemma dedup_step_new:
  "map_of (colorMap st) k = None \<Longrightarrow>
   dedup_step k st =
     \<lparr> colorMap = AList.update k (nextIndex st) (colorMap st),
       colorIndices = colorIndices st @ [nextIndex st],
       nextIndex = nextIndex st + 1 \<rparr>"
  by (simp add: dedup_step_def)

lemma update_zip_snoc:
  "k \<notin> set xs \<Longrightarrow> length xs = length ys \<Longrightarrow>
   AList.update k v (zip xs ys) = zip (xs @ [k]) (ys @ [v])"
  by (induction xs ys rule: list_induct2') auto

lemma dedup_keys_state:
  "colorMap (dedup_keys ks) = zip (first_seen ks) [0..<card (set ks)] \<and>
   nextIndex (dedup_keys ks) = card (set ks) \<and>
   length (colorIndices (dedup_keys ks)) = length ks"
proof (induction ks rule: rev_induct)
  case Nil
  show ?case by (simp add: dedup_keys_Nil dedup_init_def first_seen_Nil)
next
  case (snoc k ks)
  let ?st = "dedup_keys ks"
  show ?case
  proof (cases "k \<in> set ks")
    case True
    then have "map_of (colorMap ?st) k \<noteq> None"
      using snoc by (simp add: map_of_zip_is_None set_first_seen length_first_seen)
    then obtain v where v: "map_of (colorMap ?st) k = Some v" by blast
    have ins: "insert k (set ks) = set ks" using True by blast
    show ?thesis using True snoc
      by (simp add: dedup_keys_snoc dedup_step_seen [OF v] first_seen_snoc ins)
  next
    case False
    then have none: "map_of (colorMap ?st) k = None"
      using snoc by (simp add: map_of_zip_is_None set_first_seen length_first_seen)
    have card: "card (set (ks @ [k])) = Suc (card (set ks))" using False by simp
    show ?thesis using False snoc
      by (simp add: dedup_keys_snoc dedup_step_new [OF none] first_seen_snoc
          update_zip_snoc set_first_seen length_first_seen)
  qed
qed

lemma dedup_keys_colorMap: "colorMap (dedup_keys ks) = zip (first_seen ks) [0..<card (set ks)]"
  by (simp add: dedup_keys_state)

lemma dedup_keys_nextIndex: "nextIndex (dedup_keys ks) = card (set ks)"
  by (simp add: dedup_keys_state)

lemma dedup_keys_length: "length (colorIndices (dedup_keys ks)) = length ks"
  by (simp add: dedup_keys_state)

lemma dedup_keys_size: "length (colorMap (dedup_keys ks)) = card (set ks)"
  by (simp add: dedup_keys_colorMap length_first_seen)

lemma dedup_keys_lookup_None:
  "map_of (colorMap (dedup_keys ks)) k = None \<longleftrightarrow> k \<notin> set ks"
  by (simp add: dedup_keys_colorMap map_of_zip_is_None length_first_seen set_first_seen)

lemma dedup_keys_lookup:
  "j < length ks \<Longrightarrow>
   map_of (colorMap (dedup_keys ks)) (ks ! j) = Some (colorIndices (dedup_keys ks) ! j)"
proof (induction ks rule: rev_induct)
  case Nil
  then show ?case by simp
next
  case (snoc k ks)
  let ?st = "dedup_keys ks"
  have len: "length (colorIndices ?st) = length ks" by (rule dedup_keys_length)
  show ?case
  proof (cases "map_of (colorMap ?st) k")
    case None
    then have new: "k \<notin> set ks" by (simp add: dedup_keys_lookup_None)
    note st = dedup_step_new [OF None]
    show ?thesis
    proof (cases "j < length ks")
      case True
      then have "ks ! j \<noteq> k" using new by auto
      with True snoc.IH [OF True] show ?thesis
        by (simp add: dedup_keys_snoc st update_conv' nth_append len)
    next
      case False
      with snoc.prems have "j = length ks" by simp
      then show ?thesis
        by (simp add: dedup_keys_snoc st update_conv' nth_append len)
    qed
  next
    case (Some v)
    note st = dedup_step_seen [OF Some]
    show ?thesis
    proof (cases "j < length ks")
      case True
      with snoc.IH [OF True] show ?thesis
        by (simp add: dedup_keys_snoc st nth_append len)
    next
      case False
      with snoc.prems have "j = length ks" by simp
      then show ?thesis using Some
        by (simp add: dedup_keys_snoc st nth_append len)
    qed
  qed
qed

lemma map_of_zip_upt_Some:
  "map_of (zip xs [0..<length xs]) k = Some v \<Longrightarrow> v < length xs \<and> xs ! v = k"
proof -
  assume "map_of (zip xs [0..<length xs]) k = Some v"
  then have "(k, v) \<in> set (zip xs [0..<length xs])" by (rule map_of_SomeD)
  then show ?thesis by (auto simp: in_set_zip)
qed

lemma dedup_keys_index:
  assumes "j < length ks"
  shows "colorIndices (dedup_keys ks) ! j < card (set ks) \<and>
         first_seen ks ! (colorIndices (dedup_keys ks) ! j) = ks ! j"
proof -
  have "map_of (zip (first_seen ks) [0..<length (first_seen ks)]) (ks ! j)
      = Some (colorIndices (dedup_keys ks) ! j)"
    using dedup_keys_lookup [OF assms] by (simp add: dedup_keys_colorMap length_first_seen)
  from map_of_zip_upt_Some [OF this] show ?thesis by (simp add: length_first_seen)
qed

lemma dedup_keys_same_index:
  assumes "i < length ks" "j < length ks"
  shows "colorIndices (dedup_keys ks) ! i = colorIndices (dedup_keys ks) ! j \<longleftrightarrow> ks ! i = ks ! j"
proof
  assume "colorIndices (dedup_keys ks) ! i = colorIndices (dedup_keys ks) ! j"
  with dedup_keys_index [OF assms(1)] dedup_keys_index [OF assms(2)]
  show "ks ! i = ks ! j" by simp
next
  assume "ks ! i = ks ! j"
  with dedup_keys_lookup [OF assms(1)] dedup_keys_lookup [OF assms(2)]
  show "colorIndices (dedup_keys ks) ! i = colorIndices (dedup_keys ks) ! j" by simp
qed

lemma dedup_step_indices:
  "\<exists>v. colorIndices (dedup_step k st) = colorIndices st @ [v]"
  by (cases "map_of (colorMap st) k") (simp_all add: dedup_step_def)

lemma dedup_keys_prefix:
  "take (length ks) (colorIndices (dedup_keys (ks @ ks'))) = colorIndices (dedup_keys ks)"
proof (induction ks' rule: rev_induct)
  case Nil
  then show ?case using dedup_keys_length [of ks] by simp
next
  case (snoc k ks')
  obtain v where v: "colorIndices (dedup_step k (dedup_keys (ks @ ks')))
      = colorIndices (dedup_keys (ks @ ks')) @ [v]"
    using dedup_step_indices by blast
  have "dedup_keys (ks @ ks' @ [k]) = dedup_step k (dedup_keys (ks @ ks'))"
    using dedup_keys_snoc [of "ks @ ks'" k] by simp
  then show ?case using snoc dedup_keys_length [of "ks @ ks'"] by (simp add: v)
qed

lemma dedup_keys_new_index:
  assumes j: "j < length ks" and new: "ks ! j \<notin> set (take j ks)"
  shows "colorIndices (dedup_keys ks) ! j = card (set (take j ks))"
proof -
  let ?p = "take j ks"
  have ks: "ks = (?p @ [ks ! j]) @ drop (Suc j) ks"
    using j by (simp add: id_take_nth_drop [symmetric])
  have lp: "length (?p @ [ks ! j]) = Suc j" using j by simp
  have none: "map_of (colorMap (dedup_keys ?p)) (ks ! j) = None"
    using new by (simp add: dedup_keys_lookup_None)
  have "colorIndices (dedup_keys ks) ! j
      = take (Suc j) (colorIndices (dedup_keys ks)) ! j" by simp
  also have "take (Suc j) (colorIndices (dedup_keys ks))
      = colorIndices (dedup_keys (?p @ [ks ! j]))"
    using dedup_keys_prefix [of "?p @ [ks ! j]" "drop (Suc j) ks"] ks lp by metis
  also have "\<dots> ! j = nextIndex (dedup_keys ?p)"
    using j dedup_keys_length [of ?p]
    by (simp add: dedup_keys_snoc dedup_step_new [OF none] nth_append)
  finally show ?thesis by (simp add: dedup_keys_nextIndex)
qed

lemma dedup_keys_indices_set:
  "set (colorIndices (dedup_keys ks)) = {0..<card (set ks)}"
proof (intro equalityI subsetI)
  fix v assume "v \<in> set (colorIndices (dedup_keys ks))"
  then obtain j where "j < length ks" "colorIndices (dedup_keys ks) ! j = v"
    by (auto simp: in_set_conv_nth dedup_keys_length)
  with dedup_keys_index [of j ks] show "v \<in> {0..<card (set ks)}" by auto
next
  fix v assume "v \<in> {0..<card (set ks)}"
  then have v: "v < length (first_seen ks)" by (simp add: length_first_seen)
  then have "first_seen ks ! v \<in> set ks"
    using nth_mem [OF v] by (simp add: set_first_seen)
  then obtain j where j: "j < length ks" "ks ! j = first_seen ks ! v"
    by (auto simp: in_set_conv_nth)
  let ?w = "colorIndices (dedup_keys ks) ! j"
  from dedup_keys_index [OF j(1)] have w: "?w < length (first_seen ks)"
    and eq: "first_seen ks ! ?w = first_seen ks ! v"
    by (simp_all add: j(2) length_first_seen)
  from eq have "?w = v"
    using distinct_first_seen [of ks] v w by (simp add: nth_eq_iff_index_eq)
  with j(1) show "v \<in> set (colorIndices (dedup_keys ks))"
    by (metis dedup_keys_length nth_mem)
qed

lemma dedup_keys_max:
  assumes "ks \<noteq> []"
  shows "Max (set (colorIndices (dedup_keys ks))) + 1 = card (set ks)"
proof -
  have pos: "0 < card (set ks)" using assms by (simp add: card_gt_0_iff)
  have "Max {0..<card (set ks)} = card (set ks) - 1"
    using pos by (intro Max_eqI) auto
  with pos show ?thesis by (simp add: dedup_keys_indices_set)
qed

lemma card_image_cong:
  "(\<And>i j. i < n \<Longrightarrow> j < n \<Longrightarrow> f i = f j \<longleftrightarrow> g i = g j) \<Longrightarrow>
   card (f ` {..<n::nat}) = card (g ` {..<n})"
proof (induction n)
  case 0
  show ?case by simp
next
  case (Suc n)
  have IH: "card (f ` {..<n}) = card (g ` {..<n})"
    by (rule Suc.IH) (simp add: Suc.prems)
  have "f n \<in> f ` {..<n} \<longleftrightarrow> g n \<in> g ` {..<n}"
  proof
    assume "f n \<in> f ` {..<n}"
    then obtain i where "i < n" "f n = f i" by auto
    then have "g n = g i" using Suc.prems [of n i] by simp
    with \<open>i < n\<close> show "g n \<in> g ` {..<n}" by auto
  next
    assume "g n \<in> g ` {..<n}"
    then obtain i where "i < n" "g n = g i" by auto
    then have "f n = f i" using Suc.prems [of n i] by simp
    with \<open>i < n\<close> show "f n \<in> f ` {..<n}" by auto
  qed
  with IH show ?case by (simp add: lessThan_Suc card_insert_if)
qed

lemma length_colorKeys: "length (colorKeys a) = (length a + 2) div 3"
  by (simp add: colorKeys_def)

lemma nth_colorKeys: "j < (length a + 2) div 3 \<Longrightarrow> colorKeys a ! j = colorKey a (3 * j)"
  by (simp add: colorKeys_def)

lemma set_take_colorKeys:
  "j \<le> (length a + 2) div 3 \<Longrightarrow> set (take j (colorKeys a)) = (\<lambda>i. colorKey a (3 * i)) ` {..<j}"
  by (simp add: colorKeys_def take_map atLeast0LessThan)

lemma set_colorKeys: "set (colorKeys a) = (\<lambda>i. colorKey a (3 * i)) ` {..<(length a + 2) div 3}"
  by (simp add: colorKeys_def atLeast0LessThan)

lemma colorKey_full:
  assumes "3 * i + 2 < length a" "3 * j + 2 < length a"
  shows "colorKey a (3 * i) = colorKey a (3 * j) \<longleftrightarrow> canonicalTriple a i = canonicalTriple a j"
  using assms by (simp add: colorKey_eq_iff at_index_def canonicalTriple_def)

lemma generateColorIndices_keys:
  "generateColorIndices a = colorIndices (dedup_keys (colorKeys a))"
  by (simp add: generateColorIndices_def dedup_run_keys)

lemma paletteSize_keys: "paletteSize a = card (set (colorKeys a))"
  by (simp add: paletteSize_def palette_def dedup_run_keys dedup_keys_size)

lemma palette_keys:
  "palette a = zip (first_seen (colorKeys a)) [0..<card (set (colorKeys a))]"
  by (simp add: palette_def dedup_run_keys dedup_keys_colorMap)

lemma palette_keys_set: "fst ` set (palette a) = set (colorKeys a)"
proof -
  let ?ks = "colorKeys a"
  have "map fst (zip (first_seen ?ks) [0..<card (set ?ks)]) = first_seen ?ks"
    by (simp add: length_first_seen)
  then have "set (map fst (palette a)) = set (first_seen ?ks)"
    by (simp only: palette_keys)
  then show ?thesis by (simp only: set_map set_first_seen)
qed

lemma at_index_take: "i < l \<Longrightarrow> at_index (take l a) i = at_index a i"
  by (simp add: at_index_def)

lemma colorKey_take: "i + 2 < l \<Longrightarrow> colorKey (take l a) i = colorKey a i"
  by (simp add: colorKey_def at_index_take)

lemma colorKeys_partial:
  assumes "length a mod 3 \<noteq> 0"
  shows "colorKeys a =
     colorKeys (take (3 * (length a div 3)) a) @ [colorKey a (3 * (length a div 3))]"
proof -
  let ?m = "length a div 3"
  have c: "(length a + 2) div 3 = Suc ?m" using assms by presburger
  have l: "length (take (3 * ?m) a) = 3 * ?m" by simp
  have c': "(length (take (3 * ?m) a) + 2) div 3 = ?m" unfolding l by presburger
  have "map (\<lambda>j. colorKey (take (3 * ?m) a) (3 * j)) [0..<?m]
      = map (\<lambda>j. colorKey a (3 * j)) [0..<?m]"
    by (rule map_cong [OF refl]) (simp add: colorKey_take)
  then show ?thesis
    unfolding colorKeys_def c c' by simp
qed

lemma colorKey_partial_new:
  assumes "length a mod 3 \<noteq> 0"
  shows "colorKey a (3 * (length a div 3)) \<notin> set (colorKeys (take (3 * (length a div 3)) a))"
proof
  let ?m = "length a div 3" and ?b = "take (3 * (length a div 3)) a"
  assume "colorKey a (3 * ?m) \<in> set (colorKeys ?b)"
  moreover have "(length ?b + 2) div 3 = ?m"
  proof -
    have "length ?b = 3 * ?m" by simp
    then show ?thesis by presburger
  qed
  ultimately obtain j where j: "j < ?m" and eq: "colorKey a (3 * ?m) = colorKey ?b (3 * j)"
    unfolding set_colorKeys by auto
  have "3 * ?m + 2 \<ge> length a" using assms by presburger
  then have "at_index a (3 * ?m + 2) = None" by (simp add: at_index_def)
  moreover have "3 * j + 2 < length ?b" using j by simp
  then have "at_index ?b (3 * j + 2) \<noteq> None" by (simp add: at_index_def del: length_take)
  ultimately show False using eq by (auto simp: colorKey_eq_iff)
qed

section \<open>Claims about color deduplication\<close>

text \<open>
  Claim C10. When the length of the series is not a multiple of 3 the loop still ends
  (\<open>dedup_loop\<close> is a total function) and gives one index for every started triple,
  \<open>(length a + 2) div 3\<close> of them. The key of the trailing partial triple prints the
  missing components as \<^verbatim>\<open>undefined\<close>. No full triple of numbers has such a key, so the
  partial triple is never found in the palette of the full triples: it gets the next
  index, the indices of the full triples are what they are without it, and the palette
  grows by one entry.
\<close>

theorem generateColorIndices_partial_triple:
  assumes "length a mod 3 \<noteq> 0"
  shows "length (generateColorIndices a) = (length a + 2) div 3 \<and>
         colorKey a (3 * (length a div 3)) =
           (if length a mod 3 = 1
            then NumberToString (a ! (3 * (length a div 3))) @ '',undefined,undefined''
            else NumberToString (a ! (3 * (length a div 3))) @ '','' @
                 NumberToString (a ! (3 * (length a div 3) + 1)) @ '',undefined'') \<and>
         colorKey a (3 * (length a div 3)) \<notin> fst ` set (palette (take (3 * (length a div 3)) a)) \<and>
         generateColorIndices a =
           generateColorIndices (take (3 * (length a div 3)) a) @
             [paletteSize (take (3 * (length a div 3)) a)] \<and>
         paletteSize a = paletteSize (take (3 * (length a div 3)) a) + 1"
proof -
  let ?m = "length a div 3" and ?b = "take (3 * (length a div 3)) a"
  let ?k = "colorKey a (3 * ?m)"
  have len: "length (generateColorIndices a) = (length a + 2) div 3"
    by (simp add: generateColorIndices_keys dedup_keys_length length_colorKeys)
  have key: "?k =
           (if length a mod 3 = 1
            then NumberToString (a ! (3 * ?m)) @ '',undefined,undefined''
            else NumberToString (a ! (3 * ?m)) @ '','' @
                 NumberToString (a ! (3 * ?m + 1)) @ '',undefined'')"
  proof (cases "length a mod 3 = 1")
    case True
    then have "3 * ?m < length a" "\<not> 3 * ?m + 1 < length a" "\<not> 3 * ?m + 2 < length a"
      by presburger+
    with True show ?thesis by (simp add: colorKey_def at_index_def)
  next
    case False
    with assms have "3 * ?m < length a" "3 * ?m + 1 < length a" "\<not> 3 * ?m + 2 < length a"
      by presburger+
    with False show ?thesis by (simp add: colorKey_def at_index_def)
  qed
  have new: "?k \<notin> set (colorKeys ?b)" by (rule colorKey_partial_new [OF assms])
  have none: "map_of (colorMap (dedup_keys (colorKeys ?b))) ?k = None"
    using new by (simp add: dedup_keys_lookup_None)
  have run: "dedup_keys (colorKeys a) = dedup_step ?k (dedup_keys (colorKeys ?b))"
    by (simp only: colorKeys_partial [OF assms] dedup_keys_snoc)
  have seen: "?k \<notin> fst ` set (palette ?b)"
    using new by (simp only: palette_keys_set not_False_eq_True)
  have idx: "generateColorIndices a = generateColorIndices ?b @ [paletteSize ?b]"
    unfolding generateColorIndices_keys run dedup_step_new [OF none]
    by (simp add: dedup_keys_nextIndex paletteSize_keys)
  have size: "paletteSize a = paletteSize ?b + 1"
    using new by (simp add: paletteSize_keys colorKeys_partial [OF assms])
  from len key seen idx size show ?thesis by blast
qed


text \<open>The series \<open>[1, 0, 0, 1]\<close>: one full triple and a partial one.\<close>

theorem generateColorIndices_partial_triple_witness:
  "length (generateColorIndices
      [Finite False 0 D1 0, Zero False, Zero False, Finite False 0 D1 0]) = 2 \<and>
   colorKey [Finite False 0 D1 0, Zero False, Zero False, Finite False 0 D1 0] 3
     = ''1,undefined,undefined'' \<and>
   generateColorIndices [Finite False 0 D1 0, Zero False, Zero False, Finite False 0 D1 0]
     = [0, 1]"
proof -
  let ?a = "[Finite False 0 D1 0, Zero False, Zero False, Finite False 0 D1 0]"
  have h: "length ?a mod 3 \<noteq> 0" by simp
  have m: "length ?a div 3 = 1" by simp
  have t: "take (3 * 1) ?a = [Finite False 0 D1 0, Zero False, Zero False]" by simp
  have g: "generateColorIndices [Finite False 0 D1 0, Zero False, Zero False] = [0]"
    by code_simp
  have p: "paletteSize [Finite False 0 D1 0, Zero False, Zero False] = 1"
    by code_simp
  have n: "render (dec (significand 0 D1)) 0 = ''1''"
    by code_simp
  have l: "(length ?a + 2) div 3 = 2" by simp
  have r: "length ?a mod 3 = 1" by simp
  from generateColorIndices_partial_triple [OF h]
  show ?thesis unfolding m t g p l r by (simp add: n)
qed

lemma card_keys_triples:
  assumes "length a = 3 * n" "j \<le> n"
  shows "card ((\<lambda>i. colorKey a (3 * i)) ` {..<j}) = card (canonicalTriple a ` {..<j})"
proof (rule card_image_cong)
  fix i i' assume "i < j" "i' < j"
  with assms have "3 * i + 2 < length a" "3 * i' + 2 < length a" by simp_all
  then show "colorKey a (3 * i) = colorKey a (3 * i') \<longleftrightarrow> canonicalTriple a i = canonicalTriple a i'"
    by (rule colorKey_full)
qed

text \<open>
  Claim C1, amended. For a series of \<open>n\<close> RGB triples the function returns \<open>n\<close>
  indices. The palette has one entry for every distinct triple, where two triples that
  differ only in the sign of a zero component are one triple: both print as the same
  key. The values stored in the palette are \<open>0, 1, 2, \<dots>\<close> in insertion order. A triple
  not met before gets the number of distinct triples before it as its index, a triple
  met before gets the index it got then, and for a non-empty series the largest index
  plus one is the size of the palette.
\<close>

theorem generateColorIndices_palette:
  assumes "length a = 3 * n"
  shows "length (generateColorIndices a) = n \<and>
         paletteSize a = card (canonicalTriple a ` {..<n}) \<and>
         map snd (palette a) = [0..<paletteSize a] \<and>
         (\<forall>j<n. (\<forall>i<j. canonicalTriple a i \<noteq> canonicalTriple a j) \<longrightarrow>
            generateColorIndices a ! j = card (canonicalTriple a ` {..<j})) \<and>
         (\<forall>j<n. \<forall>i<j. canonicalTriple a i = canonicalTriple a j \<longrightarrow>
            generateColorIndices a ! j = generateColorIndices a ! i) \<and>
         (0 < n \<longrightarrow> Max (set (generateColorIndices a)) + 1 = paletteSize a)"
proof -
  let ?ks = "colorKeys a"
  have n: "(length a + 2) div 3 = n" using assms by presburger
  have lk: "length ?ks = n" by (simp only: length_colorKeys n)
  have nth: "?ks ! j = colorKey a (3 * j)" if "j < n" for j
    using nth_colorKeys [of j a] that unfolding n by simp
  have full: "3 * j + 2 < length a" if "j < n" for j
    using that assms by simp
  have len: "length (generateColorIndices a) = n"
    by (simp add: generateColorIndices_keys dedup_keys_length lk)
  have size: "paletteSize a = card (canonicalTriple a ` {..<n})"
    unfolding paletteSize_keys set_colorKeys n
    using card_keys_triples [OF assms, of n] by simp
  have seq: "map snd (palette a) = [0..<paletteSize a]"
    by (simp add: palette_keys paletteSize_keys length_first_seen)
  have new: "\<forall>j<n. (\<forall>i<j. canonicalTriple a i \<noteq> canonicalTriple a j) \<longrightarrow>
            generateColorIndices a ! j = card (canonicalTriple a ` {..<j})"
  proof (intro allI impI)
    fix j assume j: "j < n" and d: "\<forall>i<j. canonicalTriple a i \<noteq> canonicalTriple a j"
    have st: "set (take j ?ks) = (\<lambda>i. colorKey a (3 * i)) ` {..<j}"
      using set_take_colorKeys [of j a] j unfolding n by simp
    have "?ks ! j \<notin> set (take j ?ks)"
    proof
      assume "?ks ! j \<in> set (take j ?ks)"
      then obtain i where i: "i < j" and "colorKey a (3 * j) = colorKey a (3 * i)"
        unfolding st nth [OF j] by auto
      then have "canonicalTriple a i = canonicalTriple a j"
        using colorKey_full [OF full full, of j i] j by simp
      with d i show False by blast
    qed
    then have "generateColorIndices a ! j = card (set (take j ?ks))"
      using j by (simp add: generateColorIndices_keys dedup_keys_new_index lk)
    also have "\<dots> = card (canonicalTriple a ` {..<j})"
      unfolding st using card_keys_triples [OF assms, of j] j by simp
    finally show "generateColorIndices a ! j = card (canonicalTriple a ` {..<j})" .
  qed
  have old: "\<forall>j<n. \<forall>i<j. canonicalTriple a i = canonicalTriple a j \<longrightarrow>
            generateColorIndices a ! j = generateColorIndices a ! i"
  proof (intro allI impI)
    fix j i assume j: "j < n" and i: "i < j" and e: "canonicalTriple a i = canonicalTriple a j"
    have i': "i < n" using i j by simp
    have "?ks ! j = ?ks ! i"
      using colorKey_full [OF full full, of j i] j i' e by (simp add: nth)
    then show "generateColorIndices a ! j = generateColorIndices a ! i"
      using dedup_keys_same_index [of j ?ks i] j i'
      by (simp add: generateColorIndices_keys lk)
  qed
  have mx: "0 < n \<longrightarrow> Max (set (generateColorIndices a)) + 1 = paletteSize a"
  proof
    assume "0 < n"
    then have "?ks \<noteq> []" using lk by auto
    from dedup_keys_max [OF this]
    show "Max (set (generateColorIndices a)) + 1 = paletteSize a"
      by (simp only: generateColorIndices_keys paletteSize_keys)
  qed
  show ?thesis
    by (rule conjI [OF len conjI [OF size conjI [OF seq conjI [OF new conjI [OF old mx]]]]])
qed

text \<open>
  Claim C4, amended. Two full triples of the series get the same index exactly when
  their components are equal as numbers with \<open>+0\<close> and \<open>-0\<close> taken as equal
  (\<open>canonicalTriple\<close>); in particular identical triples get the same index. There is no
  tolerance and no quantization: any other difference in a component, however small,
  gives a different index.
\<close>

theorem generateColorIndices_same_index:
  assumes "3 * i + 2 < length a" "3 * j + 2 < length a"
  shows "(generateColorIndices a ! i = generateColorIndices a ! j
            \<longleftrightarrow> canonicalTriple a i = canonicalTriple a j) \<and>
         (triple a i = triple a j \<longrightarrow> generateColorIndices a ! i = generateColorIndices a ! j)"
proof -
  let ?ks = "colorKeys a"
  have i: "i < length ?ks"
    using assms(1) unfolding length_colorKeys by linarith
  have j: "j < length ?ks"
    using assms(2) unfolding length_colorKeys by linarith
  have ki: "?ks ! i = colorKey a (3 * i)" and kj: "?ks ! j = colorKey a (3 * j)"
    using i j by (simp_all add: nth_colorKeys length_colorKeys)
  have iff: "generateColorIndices a ! i = generateColorIndices a ! j
            \<longleftrightarrow> canonicalTriple a i = canonicalTriple a j"
    unfolding generateColorIndices_keys dedup_keys_same_index [OF i j] ki kj
    by (rule colorKey_full [OF assms])
  have "canonicalTriple a i = canonicalTriple a j" if "triple a i = triple a j"
    using that by (simp add: triple_def canonicalTriple_def)
  with iff show ?thesis by blast
qed

lemma dedup_exec_loop: "dedup_exec a i st st' \<Longrightarrow> st' = dedup_loop a i st"
proof (induction rule: dedup_exec.induct)
  case (exit i a st)
  then show ?case by (subst dedup_loop.simps) simp
next
  case (iteration i a st st')
  then show ?case by (subst dedup_loop.simps) simp
qed

lemma dedup_loop_exec: "dedup_exec a i st (dedup_loop a i st)"
proof (induction a i st rule: dedup_loop.induct)
  case (1 a i st)
  show ?case
  proof (cases "i < length a")
    case True
    with 1 have "dedup_exec a (i + 3) (dedup_step (colorKey a i) st)
        (dedup_loop a (i + 3) (dedup_step (colorKey a i) st))" by simp
    with True have "dedup_exec a i st (dedup_loop a (i + 3) (dedup_step (colorKey a i) st))"
      by (rule dedup_exec.iteration)
    with True show ?thesis by (simp add: dedup_loop.simps [of a i])
  next
    case False
    then show ?thesis by (simp add: dedup_loop.simps [of a i] dedup_exec.exit)
  qed
qed

text \<open>
  Claim C7. The map, the index array and the counter are created by each call, so every
  run starts from \<open>dedup_init\<close>. Any two runs of the loop on the same series end with
  the same palette (the same keys with the same indices, in the same order) and the same
  index series, which are the palette and the result of \<open>generateColorIndices\<close>.
\<close>

theorem generateColorIndices_deterministic:
  assumes "dedup_exec a 0 dedup_init st" and "dedup_exec a 0 dedup_init st'"
  shows "colorMap st = colorMap st' \<and> colorIndices st = colorIndices st' \<and>
         colorMap st = palette a \<and> colorIndices st = generateColorIndices a"
  using dedup_exec_loop [OF assms(1)] dedup_exec_loop [OF assms(2)]
  by (simp add: palette_def generateColorIndices_def dedup_run_def)

text \<open>The series \<open>[1,0,0, 1,0,0, 0,1,0]\<close> of three triples.\<close>

theorem generateColorIndices_palette_witness:
  "length [Finite False 0 D1 0, Zero False, Zero False,
           Finite False 0 D1 0, Zero False, Zero False,
           Zero False, Finite False 0 D1 0, Zero False] = 3 * 3 \<and>
   length (generateColorIndices
          [Finite False 0 D1 0, Zero False, Zero False,
           Finite False 0 D1 0, Zero False, Zero False,
           Zero False, Finite False 0 D1 0, Zero False]) = 3 \<and>
   paletteSize
          [Finite False 0 D1 0, Zero False, Zero False,
           Finite False 0 D1 0, Zero False, Zero False,
           Zero False, Finite False 0 D1 0, Zero False] =
     card (canonicalTriple
          [Finite False 0 D1 0, Zero False, Zero False,
           Finite False 0 D1 0, Zero False, Zero False,
           Zero False, Finite False 0 D1 0, Zero False] ` {..<3})"
proof -
  let ?a = "[Finite False 0 D1 0, Zero False, Zero False,
           Finite False 0 D1 0, Zero False, Zero False,
           Zero False, Finite False 0 D1 0, Zero False]"
  have h: "length ?a = 3 * 3" by simp
  note t = generateColorIndices_palette [OF h]
  show ?thesis
    by (rule conjI [OF h conjI [OF conjunct1 [OF t] conjunct1 [OF conjunct2 [OF t]]]])
qed

text \<open>
  Claim C1 as stated fails on \<open>[1,0,0, 1,-0,0]\<close>: the two triples are different
  (\<open>0\<close> and \<open>-0\<close> are different numbers), but both have the key \<^verbatim>\<open>1,0,0\<close> and the
  palette has one entry.
\<close>

theorem generateColorIndices_palette_counterexample:
  "paletteSize [Finite False 0 D1 0, Zero False, Zero False,
                Finite False 0 D1 0, Zero True, Zero False] = 1 \<and>
   card (triple [Finite False 0 D1 0, Zero False, Zero False,
                 Finite False 0 D1 0, Zero True, Zero False] ` {..<2}) = 2"
proof -
  let ?a = "[Finite False 0 D1 0, Zero False, Zero False,
             Finite False 0 D1 0, Zero True, Zero False]"
  have "paletteSize ?a = 1" by code_simp
  moreover have "{..<2::nat} = {0, 1}" by auto
  then have "card (triple ?a ` {..<2}) = 2" by (simp add: triple_def)
  ultimately show ?thesis by simp
qed

text \<open>In \<open>[0,0,0, -0,0,0, 0,1,0]\<close> the first and the third triple get different indices.\<close>

theorem generateColorIndices_same_index_witness:
  "3 * 0 + 2 < length [Zero False, Zero False, Zero False, Zero True, Zero False, Zero False,
                       Zero False, Finite False 0 D1 0, Zero False] \<and>
   3 * 2 + 2 < length [Zero False, Zero False, Zero False, Zero True, Zero False, Zero False,
                       Zero False, Finite False 0 D1 0, Zero False] \<and>
   generateColorIndices [Zero False, Zero False, Zero False, Zero True, Zero False, Zero False,
                       Zero False, Finite False 0 D1 0, Zero False] ! 0 \<noteq>
   generateColorIndices [Zero False, Zero False, Zero False, Zero True, Zero False, Zero False,
                       Zero False, Finite False 0 D1 0, Zero False] ! 2"
proof -
  let ?a = "[Zero False, Zero False, Zero False, Zero True, Zero False, Zero False,
             Zero False, Finite False 0 D1 0, Zero False]"
  have h0: "3 * 0 + 2 < length ?a" and h2: "3 * 2 + 2 < length ?a" by simp_all
  have "canonicalTriple ?a 0 \<noteq> canonicalTriple ?a 2"
    by (simp add: canonicalTriple_def canonical_def)
  with conjunct1 [OF generateColorIndices_same_index [OF h0 h2]]
  have "generateColorIndices ?a ! 0 \<noteq> generateColorIndices ?a ! 2" by (simp only: simp_thms)
  with h0 h2 show ?thesis by (intro conjI)
qed

text \<open>
  Claim C4 as stated fails on \<open>[0,0,0, -0,0,0]\<close>: the triples differ in their first
  component and get the same index 0.
\<close>

theorem generateColorIndices_same_index_counterexample:
  "triple [Zero False, Zero False, Zero False, Zero True, Zero False, Zero False] 0 \<noteq>
   triple [Zero False, Zero False, Zero False, Zero True, Zero False, Zero False] 1 \<and>
   generateColorIndices [Zero False, Zero False, Zero False, Zero True, Zero False, Zero False] ! 0 =
   generateColorIndices [Zero False, Zero False, Zero False, Zero True, Zero False, Zero False] ! 1"
proof -
  let ?a = "[Zero False, Zero False, Zero False, Zero True, Zero False, Zero False]"
  have "generateColorIndices ?a = [0, 0]" by code_simp
  then show ?thesis by (simp add: triple_def)
qed

text \<open>The run on the series \<open>[1, 0, 0]\<close>.\<close>

theorem generateColorIndices_deterministic_witness:
  "dedup_exec [Finite False 0 D1 0, Zero False, Zero False] 0 dedup_init
     (dedup_run [Finite False 0 D1 0, Zero False, Zero False]) \<and>
   colorIndices (dedup_run [Finite False 0 D1 0, Zero False, Zero False])
     = generateColorIndices [Finite False 0 D1 0, Zero False, Zero False]"
proof -
  let ?a = "[Finite False 0 D1 0, Zero False, Zero False]"
  have e: "dedup_exec ?a 0 dedup_init (dedup_run ?a)"
    unfolding dedup_run_def by (rule dedup_loop_exec)
  from generateColorIndices_deterministic [OF e e] e show ?thesis by simp
qed

section \<open>The Data Loader\<close>

lemma invalid_iff: "invalid v \<longleftrightarrow> \<not> isFinite v"
  by (cases v) (simp_all add: invalid_def)

lemma dropWhile_all_iff: "dropWhile P xs = [] \<longleftrightarrow> list_all P xs"
  by (simp add: dropWhile_eq_Nil_conv list_all_iff)

lemma trim_empty_iff: "trim s = [] \<longleftrightarrow> isBlank s"
proof
  assume "trim s = []"
  then have "list_all isWhiteSpace (dropWhile isWhiteSpace s)"
    by (simp add: trim_def dropWhile_all_iff list_all_iff)
  then have "dropWhile isWhiteSpace s = []"
    using hd_dropWhile [of isWhiteSpace s]
    by (cases "dropWhile isWhiteSpace s") (auto simp del: hd_dropWhile)
  then show "isBlank s" by (simp add: isBlank_def list_all_iff)
next
  assume "isBlank s"
  then have "dropWhile isWhiteSpace s = []"
    by (simp add: isBlank_def list_all_iff)
  then show "trim s = []" by (simp only: trim_def rev.simps dropWhile.simps)
qed

lemma isBlank_removeBOM: "isBlank (removeBOM text) \<longleftrightarrow> isBlank text"
  by (cases "text") (auto simp: removeBOM_def isBlank_def isWhiteSpace_def)

lemma isBlank_Nil: "isBlank []"
  by (simp add: isBlank_def)

lemma lineValues_tokens: "lineValues line = map Number (tokens line)"
  by (simp add: lineValues_def tokens_def)

lemma list_ex_invalid: "\<not> list_ex invalid (lineValues line) \<longleftrightarrow> validLine line"
  by (simp add: lineValues_tokens validLine_def list_ex_iff invalid_iff)

lemma filter_lineValues:
  "filter (\<lambda>values. \<not> list_ex invalid values) (map lineValues ls)
     = map lineValues (filter validLine ls)"
  by (induction ls) (simp_all add: list_ex_invalid)

lemma parseDataFile_blank: "isBlank text \<Longrightarrow> parseDataFile cube text = cube"
  using isBlank_removeBOM [of "text"]
  by (simp add: parseDataFile_def Let_def trim_empty_iff)

lemma parseDataFile_nonblank:
  assumes "\<not> isBlank text"
  shows "parseDataFile cube text =
     (if survivingValues (dataLines text) \<noteq> [] then survivingValues (dataLines text) else cube)"
proof -
  have nb: "\<not> isBlank (removeBOM text)" using assms by (simp add: isBlank_removeBOM)
  then have ne: "removeBOM text \<noteq> []" using isBlank_Nil by auto
  have sv: "concat (filter (\<lambda>values. \<not> list_ex invalid values)
                 (map lineValues (split LF (trim (removeBOM text)))))
      = survivingValues (dataLines text)"
    unfolding filter_lineValues survivingValues_def dataLines_def
    by (simp add: lineValues_tokens [abs_def])
  show ?thesis
    unfolding parseDataFile_def Let_def sv
    using nb ne by (simp add: trim_empty_iff)
qed

lemma split_ws_acc_nonempty: "split_ws_acc cur s \<noteq> []"
  by (induction cur s rule: split_ws_acc.induct) simp_all

lemma tokens_nonempty: "tokens line \<noteq> []"
  by (simp add: tokens_def split_ws_def split_ws_acc_nonempty)

lemma split_acc_nonempty: "split_acc sep cur s \<noteq> []"
  by (induction s arbitrary: cur) simp_all

lemma dataLines_nonempty: "dataLines text \<noteq> []"
  by (simp add: dataLines_def split_def split_acc_nonempty)

lemma Number_empty: "Number [] = Zero False"
  by (simp add: Number_def StringToNumber_def trim_def)

lemma tokens_blank: "isBlank line \<Longrightarrow> tokens line = [[]]"
  using trim_empty_iff [of line] by (simp add: tokens_def split_ws_def)

lemma dataLines_blank: "isBlank text \<Longrightarrow> dataLines text = [[]]"
  using trim_empty_iff [of "removeBOM text"]
  by (simp add: dataLines_def isBlank_removeBOM split_def)

lemma survivingValues_finite: "v \<in> set (survivingValues ls) \<Longrightarrow> isFinite v"
  by (auto simp: survivingValues_def validLine_def)

lemma survivingValues_none:
  "\<forall>line\<in>set ls. \<not> validLine line \<Longrightarrow> survivingValues ls = []"
  by (simp add: survivingValues_def filter_False)

lemma survivingValues_all:
  "\<forall>line\<in>set ls. validLine line \<Longrightarrow>
   survivingValues ls = concat (map (\<lambda>line. map Number (tokens line)) ls)"
  by (simp add: survivingValues_def filter_True)

lemma survivingValues_append:
  "survivingValues (xs @ ys) = survivingValues xs @ survivingValues ys"
  by (simp add: survivingValues_def)

lemma survivingValues_some:
  assumes "line \<in> set ls" "validLine line"
  shows "survivingValues ls \<noteq> []"
proof -
  have "line \<in> set (filter validLine ls)" using assms by simp
  moreover have "map Number (tokens line) \<noteq> []" by (simp add: tokens_nonempty)
  ultimately show ?thesis by (auto simp: survivingValues_def)
qed

lemma validLine_blank: "isBlank b \<Longrightarrow> validLine b"
  by (simp add: validLine_def tokens_blank Number_empty)

lemma survivingValues_blank: "isBlank b \<Longrightarrow> survivingValues [b] = [Zero False]"
  by (simp add: survivingValues_def validLine_blank tokens_blank Number_empty)

lemma concat_uniform:
  assumes "\<forall>l\<in>set ls. length l = m"
  shows "length (concat ls) = m * length ls"
    and "i < length ls \<Longrightarrow> k < m \<Longrightarrow> concat ls ! (m * i + k) = ls ! i ! k"
  using assms
proof (induction ls arbitrary: i)
  case Nil
  { case 1 show ?case by simp }
  { case 2 then show ?case by simp }
next
  case (Cons l ls)
  { case 1
    with Cons.IH(1) show ?case by simp }
  { case 2
    then have len: "length l = m" and rest: "\<forall>l\<in>set ls. length l = m" by simp_all
    show ?case
    proof (cases i)
      case 0
      with 2 len show ?thesis by (simp add: nth_append)
    next
      case (Suc i')
      with 2 have i': "i' < length ls" by simp
      have "m * i + k = length l + (m * i' + k)" using Suc len by simp
      then have "concat (l # ls) ! (m * i + k) = concat ls ! (m * i' + k)"
        by (simp add: nth_append)
      also have "\<dots> = ls ! i' ! k" by (rule Cons.IH(2) [OF i' 2(2) rest])
      finally show ?thesis using Suc by simp
    qed }
qed

section \<open>Claims about the Data Loader\<close>

text \<open>
  Claim C5. When the text is empty or white space only, or when no line survives (every
  line has a token that is not a finite number, so that no number is left), the loader
  returns the default series. In every case it returns a value: the default series, or
  a non-empty series of finite numbers.
\<close>

theorem parseDataFile_default:
  "(isBlank text \<or> (\<forall>line\<in>set (dataLines text). \<not> validLine line)
      \<longrightarrow> parseDataFile cube text = cube) \<and>
   (parseDataFile cube text = cube \<or>
      parseDataFile cube text \<noteq> [] \<and> (\<forall>v\<in>set (parseDataFile cube text). isFinite v))"
proof (cases "isBlank text")
  case True
  then show ?thesis by (simp add: parseDataFile_blank)
next
  case False
  note p = parseDataFile_nonblank [OF False, of cube]
  show ?thesis
  proof (cases "survivingValues (dataLines text) = []")
    case True
    with p show ?thesis by simp
  next
    case ne: False
    then have "\<not> (\<forall>line\<in>set (dataLines text). \<not> validLine line)"
      using survivingValues_none by blast
    with False ne p show ?thesis by (auto dest: survivingValues_finite)
  qed
qed

text \<open>
  Claim C6. A line with a token that does not parse as a finite number contributes
  nothing, and the lines whose tokens are all finite numbers are kept whole, in their
  order: for a text that is not blank, the result is the concatenation of the numbers
  of exactly the valid lines when there is one, and the default series otherwise.
\<close>

theorem parseDataFile_drops_invalid_lines:
  assumes "\<not> isBlank text"
  shows "parseDataFile cube text =
     (if \<exists>line\<in>set (dataLines text). validLine line
      then concat (map (\<lambda>line. map Number (tokens line)) (filter validLine (dataLines text)))
      else cube)"
proof (cases "\<exists>line\<in>set (dataLines text). validLine line")
  case True
  then have "survivingValues (dataLines text) \<noteq> []"
    using survivingValues_some by blast
  with parseDataFile_nonblank [OF assms, of cube] True show ?thesis
    by (simp add: survivingValues_def)
next
  case False
  then have "survivingValues (dataLines text) = []"
    by (simp add: survivingValues_none)
  with parseDataFile_nonblank [OF assms, of cube] False show ?thesis by simp
qed

text \<open>
  Claim C2. A text of \<open>N\<close> lines, each of three tokens that parse as finite numbers,
  gives a series of length \<open>3 * N\<close> in which the three numbers of line \<open>i\<close> are at the
  positions \<open>3 * i\<close>, \<open>3 * i + 1\<close> and \<open>3 * i + 2\<close>.
\<close>

theorem parseDataFile_wellformed:
  assumes "length (dataLines text) = N"
    and "\<forall>line\<in>set (dataLines text). length (tokens line) = 3 \<and> validLine line"
  shows "length (parseDataFile cube text) = 3 * N \<and>
         (\<forall>i<N. \<forall>k<3. parseDataFile cube text ! (3 * i + k)
             = Number (tokens (dataLines text ! i) ! k))"
proof -
  let ?ls = "dataLines text"
  let ?vs = "map (\<lambda>line. map Number (tokens line)) ?ls"
  have nb: "\<not> isBlank text"
  proof
    assume "isBlank text"
    then have "?ls = [[]]" by (rule dataLines_blank)
    with assms(2) have "length (tokens []) = 3" by simp
    then show False by (simp add: tokens_blank isBlank_Nil)
  qed
  from dataLines_nonempty [of "text"] obtain l where l: "l \<in> set ?ls"
    by (cases ?ls) auto
  with assms(2) have "validLine l" by simp
  with l have ne: "survivingValues ?ls \<noteq> []" by (rule survivingValues_some)
  have sv: "survivingValues ?ls = concat ?vs"
    using assms(2) by (simp add: survivingValues_all)
  have res: "parseDataFile cube text = concat ?vs"
    using parseDataFile_nonblank [OF nb, of cube] ne sv by simp
  have u: "\<forall>l\<in>set ?vs. length l = 3" using assms(2) by simp
  have len: "length (concat ?vs) = 3 * N"
    using concat_uniform(1) [OF u] assms(1) by simp
  have nth: "concat ?vs ! (3 * i + k) = Number (tokens (?ls ! i) ! k)" if "i < N" "k < 3" for i k
  proof -
    have i: "i < length ?vs" using that assms(1) by simp
    have "concat ?vs ! (3 * i + k) = ?vs ! i ! k"
      by (rule concat_uniform(2) [OF u i that(2)])
    also have "\<dots> = Number (tokens (?ls ! i) ! k)"
      using that assms by simp
    finally show ?thesis .
  qed
  show ?thesis unfolding res using len nth by simp
qed

text \<open>
  Claim C9. A blank line among the lines of the text is not dropped: it splits into one
  empty token, which \<^verbatim>\<open>Number\<close> reads as the finite number \<open>+0\<close>, so the line is valid
  and contributes the single value \<open>0\<close> between the numbers of the lines before it and
  those of the lines after it.
\<close>

theorem parseDataFile_blank_line:
  assumes "\<not> isBlank text"
    and "dataLines text = before @ [b] @ after"
    and "isBlank b"
  shows "tokens b = [[]] \<and> lineValues b = [Zero False] \<and> validLine b \<and>
         parseDataFile cube text =
           survivingValues before @ [Zero False] @ survivingValues after"
proof -
  have sv: "survivingValues (dataLines text)
      = survivingValues before @ [Zero False] @ survivingValues after"
    unfolding assms(2) survivingValues_append survivingValues_blank [OF assms(3)] ..
  then have "survivingValues (dataLines text) \<noteq> []" by simp
  with parseDataFile_nonblank [OF assms(1), of cube] sv
  have "parseDataFile cube text = survivingValues before @ [Zero False] @ survivingValues after"
    by simp
  with assms(3) show ?thesis
    by (simp add: tokens_blank validLine_blank lineValues_tokens Number_empty)
qed

lemmas number_eval =
  Number_def StringToNumber_def trim_def isWhiteSpace_def nonDecimalRadix_def
  unsignedDecimal_def isDigit_def exponentPart_def literalValue_def digitsValue_def
  digitValue_def overflows_def underflows_def decimal.simps ustr_def

lemma Number_1: "Number [49] = Finite False 0 D1 0"
  by (simp add: number_eval)

lemma Number_0: "Number [48] = Zero False"
  by (simp add: number_eval)

lemma Number_x: "Number [120] = NaN"
  by (simp add: number_eval)

lemma tokens_100: "tokens [49, 32, 48, 32, 48] = [[49], [48], [48]]"
  by (simp add: tokens_def split_ws_def trim_def isWhiteSpace_def)

lemma tokens_010: "tokens [48, 32, 49, 32, 48] = [[48], [49], [48]]"
  by (simp add: tokens_def split_ws_def trim_def isWhiteSpace_def)

lemma tokens_10x: "tokens [49, 32, 48, 32, 120] = [[49], [48], [120]]"
  by (simp add: tokens_def split_ws_def trim_def isWhiteSpace_def)

lemma validLine_100: "validLine [49, 32, 48, 32, 48]"
  by (simp add: validLine_def tokens_100 Number_1 Number_0)

lemma validLine_010: "validLine [48, 32, 49, 32, 48]"
  by (simp add: validLine_def tokens_010 Number_1 Number_0)

lemma validLine_10x: "\<not> validLine [49, 32, 48, 32, 120]"
  by (simp add: validLine_def tokens_10x Number_x)

lemma dataLines_scenario:
  "dataLines (ustr ''1 0 0'' @ LF # ustr ''1 0 0'' @ LF # ustr ''0 1 0'')
    = [[49, 32, 48, 32, 48], [49, 32, 48, 32, 48], [48, 32, 49, 32, 48]]"
  by (simp add: dataLines_def split_def trim_def removeBOM_def isWhiteSpace_def LF_def ustr_def)

lemma dataLines_invalid:
  "dataLines (ustr ''1 0 x'' @ LF # ustr ''0 1 0'')
    = [[49, 32, 48, 32, 120], [48, 32, 49, 32, 48]]"
  by (simp add: dataLines_def split_def trim_def removeBOM_def isWhiteSpace_def LF_def ustr_def)

lemma dataLines_gap:
  "dataLines (ustr ''1 0 0'' @ LF # LF # ustr ''0 1 0'')
    = [[49, 32, 48, 32, 48], [], [48, 32, 49, 32, 48]]"
  by (simp add: dataLines_def split_def trim_def removeBOM_def isWhiteSpace_def LF_def ustr_def)

lemma not_blank_1: "\<not> isBlank (ustr ''1 0 x'' @ LF # ustr ''0 1 0'')"
  by (simp add: isBlank_def ustr_def isWhiteSpace_def)

lemma not_blank_2: "\<not> isBlank (ustr ''1 0 0'' @ LF # LF # ustr ''0 1 0'')"
  by (simp add: isBlank_def ustr_def isWhiteSpace_def)

lemma survivingValues_100:
  "survivingValues [[49, 32, 48, 32, 48]] = [Finite False 0 D1 0, Zero False, Zero False]"
  by (simp add: survivingValues_def validLine_100 tokens_100 Number_1 Number_0)

lemma survivingValues_010:
  "survivingValues [[48, 32, 49, 32, 48]] = [Zero False, Finite False 0 D1 0, Zero False]"
  by (simp add: survivingValues_def validLine_010 tokens_010 Number_1 Number_0)

text \<open>The text of one space and a line feed is blank.\<close>

theorem parseDataFile_default_witness:
  "isBlank (ustr '' '' @ [LF]) \<and>
   parseDataFile [Finite False 0 D1 0] (ustr '' '' @ [LF]) = [Finite False 0 D1 0]"
proof -
  have b: "isBlank (ustr '' '' @ [LF])"
    by (simp add: isBlank_def ustr_def isWhiteSpace_def LF_def)
  with parseDataFile_default [of "ustr '' '' @ [LF]" "[Finite False 0 D1 0]"]
  show ?thesis by simp
qed

text \<open>The first line of \<^verbatim>\<open>1 0 x\<close>, \<^verbatim>\<open>0 1 0\<close> is dropped.\<close>

theorem parseDataFile_drops_invalid_lines_witness:
  "parseDataFile [] (ustr ''1 0 x'' @ LF # ustr ''0 1 0'')
     = [Zero False, Finite False 0 D1 0, Zero False]"
proof -
  have e: "\<exists>line\<in>set (dataLines (ustr ''1 0 x'' @ LF # ustr ''0 1 0'')). validLine line"
    unfolding dataLines_invalid by (simp add: validLine_010)
  show ?thesis
    unfolding parseDataFile_drops_invalid_lines [OF not_blank_1] if_P [OF e] dataLines_invalid
    by (simp add: validLine_010 validLine_10x tokens_010 Number_1 Number_0)
qed

text \<open>Three lines of three numbers.\<close>

theorem parseDataFile_wellformed_witness:
  "length (parseDataFile [] (ustr ''1 0 0'' @ LF # ustr ''1 0 0'' @ LF # ustr ''0 1 0''))
     = 3 * 3 \<and>
   parseDataFile [] (ustr ''1 0 0'' @ LF # ustr ''1 0 0'' @ LF # ustr ''0 1 0'') ! (3 * 2 + 1)
     = Finite False 0 D1 0"
proof -
  let ?t = "ustr ''1 0 0'' @ LF # ustr ''1 0 0'' @ LF # ustr ''0 1 0''"
  have n: "length (dataLines ?t) = 3" unfolding dataLines_scenario by simp
  have w: "\<forall>line\<in>set (dataLines ?t). length (tokens line) = 3 \<and> validLine line"
    unfolding dataLines_scenario
    by (simp add: tokens_100 tokens_010 validLine_100 validLine_010)
  note t = parseDataFile_wellformed [OF n w, of "[]"]
  have "parseDataFile [] ?t ! (3 * 2 + 1) = Number (tokens (dataLines ?t ! 2) ! 1)"
    by (rule conjunct2 [OF t, rule_format]) simp_all
  also have "\<dots> = Finite False 0 D1 0"
    unfolding dataLines_scenario by (simp add: tokens_010 Number_1)
  finally show ?thesis using conjunct1 [OF t] by (simp only: simp_thms)
qed

text \<open>An empty line between \<^verbatim>\<open>1 0 0\<close> and \<^verbatim>\<open>0 1 0\<close>.\<close>

theorem parseDataFile_blank_line_witness:
  "parseDataFile [] (ustr ''1 0 0'' @ LF # LF # ustr ''0 1 0'')
     = [Finite False 0 D1 0, Zero False, Zero False, Zero False,
        Zero False, Finite False 0 D1 0, Zero False]"
proof -
  let ?t = "ustr ''1 0 0'' @ LF # LF # ustr ''0 1 0''"
  have d: "dataLines ?t = [[49, 32, 48, 32, 48]] @ [[]] @ [[48, 32, 49, 32, 48]]"
    unfolding dataLines_gap by simp
  from parseDataFile_blank_line [OF not_blank_2 d isBlank_Nil, of "[]"]
  show ?thesis by (simp add: survivingValues_100 survivingValues_010)
qed

text \<open>
  Claim C8. The color source of the three lines \<^verbatim>\<open>1 0 0\<close>, \<^verbatim>\<open>1 0 0\<close>, \<^verbatim>\<open>0 1 0\<close> loads
  as nine numbers, and deduplication gives a palette of size 2 and the indices
  \<open>[0, 0, 1]\<close>.
\<close>

theorem scenario_colors:
  "parseDataFile cube (ustr ''1 0 0'' @ LF # ustr ''1 0 0'' @ LF # ustr ''0 1 0'')
     = [Finite False 0 D1 0, Zero False, Zero False,
        Finite False 0 D1 0, Zero False, Zero False,
        Zero False, Finite False 0 D1 0, Zero False] \<and>
   paletteSize
     (parseDataFile cube (ustr ''1 0 0'' @ LF # ustr ''1 0 0'' @ LF # ustr ''0 1 0'')) = 2 \<and>
   generateColorIndices
     (parseDataFile cube (ustr ''1 0 0'' @ LF # ustr ''1 0 0'' @ LF # ustr ''0 1 0''))
     = [0, 0, 1]"
proof -
  let ?t = "ustr ''1 0 0'' @ LF # ustr ''1 0 0'' @ LF # ustr ''0 1 0''"
  let ?a = "[Finite False 0 D1 0, Zero False, Zero False,
        Finite False 0 D1 0, Zero False, Zero False,
        Zero False, Finite False 0 D1 0, Zero False]"
  have nb: "\<not> isBlank ?t" by (simp add: isBlank_def ustr_def isWhiteSpace_def)
  have sv: "survivingValues (dataLines ?t) = ?a"
    unfolding dataLines_scenario
    by (simp add: survivingValues_def validLine_100 validLine_010
        tokens_100 tokens_010 Number_1 Number_0)
  have p: "parseDataFile cube ?t = ?a"
    using parseDataFile_nonblank [OF nb, of cube] by (simp add: sv)
  have s: "paletteSize ?a = 2" by code_simp
  have g: "generateColorIndices ?a = [0, 0, 1]" by code_simp
  show ?thesis unfolding p using s g by simp
qed

section \<open>The Attribute Packer\<close>

lemma length_offsetsFrom: "length (offsetsFrom acc as) = length as"
  by (induction as arbitrary: acc) simp_all

lemma offsetsFrom_nth:
  "i < length as \<Longrightarrow>
   offsetsFrom acc as ! i = acc + sum_list (map width (take i as)) * scalarSize"
proof (induction as arbitrary: acc i)
  case Nil
  then show ?case by simp
next
  case (Cons a as)
  show ?case
  proof (cases i)
    case 0
    then show ?thesis by simp
  next
    case (Suc j)
    with Cons.prems have "j < length as" by simp
    from Cons.IH [OF this, of "acc + width a * scalarSize"] Suc
    show ?thesis by (simp add: algebra_simps)
  qed
qed

lemma scaled_div: "(v * (S * scalarSize) + k * scalarSize) div scalarSize = v * S + k"
  by (simp add: scalarSize_def)

lemma map_add_upt': "map (\<lambda>c. x + c) [0..<w] = [x..<x + w]"
  using map_add_upt [of x w] by (simp add: add.commute)

lemma positions_aux:
  "map fst (concat (map (\<lambda>(a, off).
        map (\<lambda>c. ((v * (S * scalarSize) + off) div scalarSize + c, series a ! (v * width a + c)))
          [0..<width a])
       (zip as (offsetsFrom (k * scalarSize) as))))
   = [v * S + k ..< v * S + k + sum_list (map width as)]"
proof (induction as arbitrary: k)
  case Nil
  show ?case by simp
next
  case (Cons a as)
  have o: "k * scalarSize + width a * scalarSize = (k + width a) * scalarSize"
    by (simp add: algebra_simps)
  have "[v * S + k ..< v * S + k + (width a + sum_list (map width as))]
      = [v * S + k ..< v * S + k + width a] @
        [v * S + (k + width a) ..< v * S + (k + width a) + sum_list (map width as)]"
    using upt_add_eq_append [of "v * S + k" "v * S + k + width a" "sum_list (map width as)"]
    by (simp add: add.assoc)
  then show ?case
    using Cons.IH [of "k + width a"]
    by (simp add: o scaled_div comp_def map_add_upt')
qed

lemma vertexWrites_positions:
  "map fst (vertexWrites attrs (getStride attrs) (getOffsets attrs) v)
     = [v * sum_list (map width attrs) ..< v * sum_list (map width attrs) + sum_list (map width attrs)]"
  using positions_aux [of v "sum_list (map width attrs)" attrs 0]
  by (simp add: vertexWrites_def getStride_def getOffsets_def)

lemma concat_blocks: "concat (map (\<lambda>v. [v * S ..< v * S + S]) [0..<V]) = [0..<V * S]"
proof (induction V)
  case 0
  show ?case by simp
next
  case (Suc V)
  have "[0..<V * S + S] = [0..<V * S] @ [V * S..<V * S + S]"
    using upt_add_eq_append [of 0 "V * S" S] by simp
  with Suc show ?case by (simp add: add.commute)
qed

lemma allWrites_positions:
  "map fst (concat (map (vertexWrites attrs (getStride attrs) (getOffsets attrs)) [0..<V]))
     = [0..<V * sum_list (map width attrs)]"
  by (simp add: map_concat comp_def vertexWrites_positions concat_blocks)

lemma fold_update_length:
  "length (fold (\<lambda>(p, x) buf. buf[p := x]) ws buf) = length buf"
  by (induction ws arbitrary: buf) (simp_all add: case_prod_beta)

lemma fold_update_other:
  "p \<notin> fst ` set ws \<Longrightarrow> fold (\<lambda>(p, x) buf. buf[p := x]) ws buf ! p = buf ! p"
  by (induction ws arbitrary: buf) (auto simp: case_prod_beta)

lemma fold_update_nth:
  "distinct (map fst ws) \<Longrightarrow> (p, x) \<in> set ws \<Longrightarrow> p < length buf \<Longrightarrow>
   fold (\<lambda>(p, x) buf. buf[p := x]) ws buf ! p = x"
proof (induction ws arbitrary: buf)
  case Nil
  then show ?case by simp
next
  case (Cons w ws)
  show ?case
  proof (cases "(p, x) = w")
    case True
    then have "p \<notin> fst ` set ws" using Cons.prems(1) by force
    with True Cons.prems(3) show ?thesis
      by (auto simp: fold_update_other)
  next
    case False
    with Cons.prems have "(p, x) \<in> set ws" "distinct (map fst ws)" by auto
    with Cons.IH [of "buf[fst w := snd w]"] Cons.prems(3)
    show ?thesis by (simp add: case_prod_beta)
  qed
qed


lemma getBuffer_length:
  "length (getBuffer attrs) = vertexCount attrs * sum_list (map width attrs)"
  by (simp add: getBuffer_def fold_update_length getStride_def scalarSize_def)

lemma vertexCount_agree:
  assumes "attrs \<noteq> []" and "\<forall>a\<in>set attrs. 0 < width a \<and> length (series a) = V * width a"
  shows "vertexCount attrs = V"
  using assms by (cases attrs) (simp_all add: vertexCount_def)

lemma getOffsets_nth:
  "i < length attrs \<Longrightarrow>
   getOffsets attrs ! i = sum_list (map width (take i attrs)) * scalarSize"
  by (simp add: getOffsets_def offsetsFrom_nth)

lemma getOffsets_next:
  assumes "i < length attrs"
  shows "getOffsets attrs ! i + width (attrs ! i) * scalarSize =
     (if Suc i < length attrs then getOffsets attrs ! Suc i else getStride attrs)"
proof (cases "Suc i < length attrs")
  case True
  then show ?thesis
    using assms by (simp add: getOffsets_nth take_Suc_conv_app_nth algebra_simps)
next
  case False
  with assms have all: "take (Suc i) attrs = attrs" by simp
  have "sum_list (map width (take (Suc i) attrs))
      = sum_list (map width (take i attrs)) + width (attrs ! i)"
    using assms by (simp add: take_Suc_conv_app_nth)
  then have "sum_list (map width attrs) = sum_list (map width (take i attrs)) + width (attrs ! i)"
    by (simp only: all)
  with False assms show ?thesis
    by (simp add: getOffsets_nth getStride_def algebra_simps)
qed

lemma write_member:
  assumes "v < V" "i < length attrs" "c < width (attrs ! i)"
  shows "((v * getStride attrs + getOffsets attrs ! i) div scalarSize + c,
          series (attrs ! i) ! (v * width (attrs ! i) + c))
     \<in> set (concat (map (vertexWrites attrs (getStride attrs) (getOffsets attrs)) [0..<V]))"
proof -
  have "(attrs ! i, getOffsets attrs ! i) \<in> set (zip attrs (getOffsets attrs))"
    using assms(2) by (auto simp: in_set_zip getOffsets_def length_offsetsFrom)
  then have "((v * getStride attrs + getOffsets attrs ! i) div scalarSize + c,
          series (attrs ! i) ! (v * width (attrs ! i) + c))
     \<in> set (vertexWrites attrs (getStride attrs) (getOffsets attrs) v)"
    using assms(3) unfolding vertexWrites_def by force
  with assms(1) show ?thesis by auto
qed

lemma getBuffer_nth:
  assumes "v < vertexCount attrs" "i < length attrs" "c < width (attrs ! i)"
  shows "(v * getStride attrs + getOffsets attrs ! i) div scalarSize + c < length (getBuffer attrs) \<and>
         getBuffer attrs ! ((v * getStride attrs + getOffsets attrs ! i) div scalarSize + c)
           = series (attrs ! i) ! (v * width (attrs ! i) + c)"
proof -
  let ?ws = "concat (map (vertexWrites attrs (getStride attrs) (getOffsets attrs))
               [0..<vertexCount attrs])"
  let ?p = "(v * getStride attrs + getOffsets attrs ! i) div scalarSize + c"
  let ?x = "series (attrs ! i) ! (v * width (attrs ! i) + c)"
  have pos: "map fst ?ws = [0..<vertexCount attrs * sum_list (map width attrs)]"
    by (rule allWrites_positions)
  have mem: "(?p, ?x) \<in> set ?ws" by (rule write_member [OF assms])
  then have "?p \<in> set (map fst ?ws)" by force
  then have lt: "?p < vertexCount attrs * sum_list (map width attrs)"
    unfolding pos by simp
  have d: "distinct (map fst ?ws)" unfolding pos by simp
  have "fold (\<lambda>(p, x) buf. buf[p := x]) ?ws
          (replicate (vertexCount attrs * getStride attrs div scalarSize) (Zero False)) ! ?p = ?x"
    by (rule fold_update_nth [OF d mem])
       (use lt in \<open>simp add: getStride_def scalarSize_def\<close>)
  then show ?thesis using lt by (simp add: getBuffer_def getBuffer_length [unfolded getBuffer_def])
qed

lemma readAttribute_getBuffer:
  assumes "v < vertexCount attrs" "i < length attrs"
    and "length (series (attrs ! i)) = vertexCount attrs * width (attrs ! i)"
    and "0 < width (attrs ! i)"
  shows "readAttribute (getBuffer attrs) (getStride attrs) (getOffsets attrs ! i)
            (width (attrs ! i)) v
         = take (width (attrs ! i)) (drop (v * width (attrs ! i)) (series (attrs ! i)))"
proof (rule nth_equalityI)
  let ?w = "width (attrs ! i)"
  let ?p = "(v * getStride attrs + getOffsets attrs ! i) div scalarSize"
  have "Suc v * ?w \<le> vertexCount attrs * ?w"
    using assms(1) by (intro mult_le_mono1) simp
  then have enough: "v * ?w + ?w \<le> length (series (attrs ! i))"
    using assms(3) by simp
  have room: "?p + ?w \<le> length (getBuffer attrs)"
  proof -
    have "?w - 1 < ?w" using assms(4) by simp
    from getBuffer_nth [OF assms(1,2) this]
    have "?p + (?w - 1) < length (getBuffer attrs)" by (rule conjunct1)
    with assms(4) show ?thesis by linarith
  qed
  show "length (readAttribute (getBuffer attrs) (getStride attrs) (getOffsets attrs ! i) ?w v)
      = length (take ?w (drop (v * ?w) (series (attrs ! i))))"
    using room enough by (simp add: readAttribute_def)
  fix c assume "c < length (readAttribute (getBuffer attrs) (getStride attrs)
      (getOffsets attrs ! i) ?w v)"
  then have c: "c < ?w" by (simp add: readAttribute_def)
  from getBuffer_nth [OF assms(1,2) c] enough c
  show "readAttribute (getBuffer attrs) (getStride attrs) (getOffsets attrs ! i) ?w v ! c
      = take ?w (drop (v * ?w) (series (attrs ! i))) ! c"
    by (simp add: readAttribute_def)
qed


text \<open>
  Claim C3. For a non-empty attribute set whose attributes all have \<open>V > 0\<close> vertices,
  packing succeeds; the stride is the sum of the widths times 4 and the buffer has
  \<open>V * stride\<close> bytes. The offset of an attribute is the running sum of the byte widths
  before it, the first being 0. The byte range of each attribute ends where the range
  of the next one starts, and the last range ends at the stride: the ranges do not
  overlap and tile the region of a vertex without padding. Reading the \<open>width\<close> scalars
  at \<open>v * stride + offset\<close> gives back the values of the attribute for the vertex \<open>v\<close>.
  For the positions, normals and color indices of the scenario the stride is 28, the
  offset of the color index is 24 and the buffer has 56 bytes.
\<close>

theorem pack_layout:
  "(attrs \<noteq> [] \<and> 0 < V \<and>
    (\<forall>a\<in>set attrs. 0 < width a \<and> length (series a) = V * width a) \<longrightarrow>
      pack attrs =
        Inr \<lparr> buffer = getBuffer attrs, stride = getStride attrs, offsets = getOffsets attrs \<rparr> \<and>
      getStride attrs = sum_list (map width attrs) * 4 \<and>
      byteLength (getBuffer attrs) = V * getStride attrs \<and>
      length (getOffsets attrs) = length attrs \<and>
      getOffsets attrs ! 0 = 0 \<and>
      (\<forall>i<length attrs.
         getOffsets attrs ! i = sum_list (map width (take i attrs)) * 4 \<and>
         getOffsets attrs ! i + width (attrs ! i) * 4 =
           (if Suc i < length attrs then getOffsets attrs ! Suc i else getStride attrs)) \<and>
      (\<forall>v<V. \<forall>i<length attrs.
         readAttribute (getBuffer attrs) (getStride attrs) (getOffsets attrs ! i)
             (width (attrs ! i)) v
           = take (width (attrs ! i)) (drop (v * width (attrs ! i)) (series (attrs ! i))))) \<and>
   (let positions = \<lparr> attrName = ''positions'',
          series = [Zero False, Zero False, Zero False,
                    Finite False 0 D1 0, Zero False, Zero False], width = 3 \<rparr>;
        normals = \<lparr> attrName = ''normals'',
          series = [Zero False, Finite False 0 D1 0, Zero False,
                    Zero False, Finite False 0 D1 0, Zero False], width = 3 \<rparr>;
        colorIndices = \<lparr> attrName = ''colorIndices'',
          series = [Zero False, Zero False], width = 1 \<rparr>;
        scene = [positions, normals, colorIndices]
    in getStride scene = 28 \<and> getOffsets scene ! 2 = 24 \<and> byteLength (getBuffer scene) = 56)"
proof (intro conjI impI)
  assume h: "attrs \<noteq> [] \<and> 0 < V \<and>
    (\<forall>a\<in>set attrs. 0 < width a \<and> length (series a) = V * width a)"
  then have ne: "attrs \<noteq> []" and V: "0 < V"
    and ok: "\<forall>a\<in>set attrs. 0 < width a \<and> length (series a) = V * width a"
    by simp_all
  have vc: "vertexCount attrs = V" by (rule vertexCount_agree [OF ne ok])
  show "pack attrs =
        Inr \<lparr> buffer = getBuffer attrs, stride = getStride attrs, offsets = getOffsets attrs \<rparr>"
    using ok by (simp add: pack_def vc list_all_iff)
  show "getStride attrs = sum_list (map width attrs) * 4"
    by (simp add: getStride_def scalarSize_def)
  show "byteLength (getBuffer attrs) = V * getStride attrs"
    by (simp add: byteLength_def getBuffer_length vc getStride_def scalarSize_def)
  show "length (getOffsets attrs) = length attrs"
    by (simp add: getOffsets_def length_offsetsFrom)
  show "getOffsets attrs ! 0 = 0"
    using ne by (cases attrs) (simp_all add: getOffsets_def)
  show "\<forall>i<length attrs.
         getOffsets attrs ! i = sum_list (map width (take i attrs)) * 4 \<and>
         getOffsets attrs ! i + width (attrs ! i) * 4 =
           (if Suc i < length attrs then getOffsets attrs ! Suc i else getStride attrs)"
    using getOffsets_nth [of _ attrs] getOffsets_next [of _ attrs]
    by (simp add: scalarSize_def)
  show "\<forall>v<V. \<forall>i<length attrs.
         readAttribute (getBuffer attrs) (getStride attrs) (getOffsets attrs ! i)
             (width (attrs ! i)) v
           = take (width (attrs ! i)) (drop (v * width (attrs ! i)) (series (attrs ! i)))"
  proof (intro allI impI)
    fix v i assume v: "v < V" and i: "i < length attrs"
    then have a: "attrs ! i \<in> set attrs" by simp
    show "readAttribute (getBuffer attrs) (getStride attrs) (getOffsets attrs ! i)
             (width (attrs ! i)) v
           = take (width (attrs ! i)) (drop (v * width (attrs ! i)) (series (attrs ! i)))"
      by (rule readAttribute_getBuffer) (use v i a ok vc in simp_all)
  qed
next
  show "let positions = \<lparr> attrName = ''positions'',
          series = [Zero False, Zero False, Zero False,
                    Finite False 0 D1 0, Zero False, Zero False], width = 3 \<rparr>;
        normals = \<lparr> attrName = ''normals'',
          series = [Zero False, Finite False 0 D1 0, Zero False,
                    Zero False, Finite False 0 D1 0, Zero False], width = 3 \<rparr>;
        colorIndices = \<lparr> attrName = ''colorIndices'',
          series = [Zero False, Zero False], width = 1 \<rparr>;
        scene = [positions, normals, colorIndices]
    in getStride scene = 28 \<and> getOffsets scene ! 2 = 24 \<and> byteLength (getBuffer scene) = 56"
    by (simp add: Let_def getStride_def getOffsets_def scalarSize_def byteLength_def
        getBuffer_length vertexCount_def)
qed

text \<open>Two vertices with a position of width 3 and a color index of width 1.\<close>

theorem pack_layout_witness:
  "pack [\<lparr> attrName = ''a_Position'',
           series = [Zero False, Zero False, Zero False,
                     Finite False 0 D1 0, Zero False, Zero False], width = 3 \<rparr>,
         \<lparr> attrName = ''a_ColorIndex'', series = [Zero False, Finite False 0 D1 0], width = 1 \<rparr>]
     = Inr \<lparr> buffer = [Zero False, Zero False, Zero False, Zero False,
                       Finite False 0 D1 0, Zero False, Zero False, Finite False 0 D1 0],
             stride = 16, offsets = [0, 12] \<rparr>"
proof -
  let ?attrs = "[\<lparr> attrName = ''a_Position'',
           series = [Zero False, Zero False, Zero False,
                     Finite False 0 D1 0, Zero False, Zero False], width = 3 \<rparr>,
         \<lparr> attrName = ''a_ColorIndex'', series = [Zero False, Finite False 0 D1 0], width = 1 \<rparr>]"
  have h: "?attrs \<noteq> [] \<and> 0 < (2::nat) \<and>
    (\<forall>a\<in>set ?attrs. 0 < width a \<and> length (series a) = 2 * width a)"
    by simp
  have b: "getBuffer ?attrs = [Zero False, Zero False, Zero False, Zero False,
                       Finite False 0 D1 0, Zero False, Zero False, Finite False 0 D1 0]"
    by code_simp
  have s: "getStride ?attrs = 16" by code_simp
  have o: "getOffsets ?attrs = [0, 12]" by code_simp
  from conjunct1 [OF pack_layout [of ?attrs 2], rule_format, OF h]
  show ?thesis by (simp only: b s o)
qed

end
